theory Spec2Isabelle
  imports Complex_Main "HOL-Library.Multiset" "HOL-Library.List_Lexorder"
begin

section \<open>Data model\<close>

text \<open>
  A vertex of a tensor power of the basic crystal is a word of letters; a partition is a
  weakly decreasing sequence of positive integers. Both are JavaScript arrays of numbers
  in the source; the numbers that occur are integers, modelled as \<open>int\<close>.
\<close>

type_synonym vertex = "int list"
type_synonym partition = "int list"

text \<open>\<open>assertOrCrash\<close> throws an \<open>Error\<close>; the message is not modelled.\<close>

datatype error = AssertionFailed

subsection \<open>Reading a JavaScript array\<close>

text \<open>
  \<open>a[k]\<close> is \<open>undefined\<close> outside the array, and every comparison with
  \<open>undefined\<close> is false. \<open>js_get\<close> returns \<open>None\<close> for \<open>undefined\<close>.
\<close>

definition js_get :: "int list \<Rightarrow> int \<Rightarrow> int option" where
  "js_get a k = (if 0 \<le> k \<and> k < int (length a) then Some (a ! nat k) else None)"

definition js_gt :: "int option \<Rightarrow> int option \<Rightarrow> bool" where
  "js_gt x y = (case x of None \<Rightarrow> False
                | Some a \<Rightarrow> (case y of None \<Rightarrow> False | Some b \<Rightarrow> a > b))"

section \<open>Partition and vertex primitives\<close>

text \<open>\<open>compareLists\<close> of util.ts: lexicographic comparison, a proper prefix is smaller.\<close>

fun compareLists :: "int list \<Rightarrow> int list \<Rightarrow> int" where
  "compareLists [] [] = 0"
| "compareLists [] (y # ys) = -1"
| "compareLists (x # xs) [] = 1"
| "compareLists (x # xs) (y # ys) =
     (if x < y then -1 else if x > y then 1 else compareLists xs ys)"

text \<open>The first loop of \<open>isPartition\<close>: no entry is smaller than its successor.\<close>

fun weaklyDecreasing :: "int list \<Rightarrow> bool" where
  "weaklyDecreasing [] = True"
| "weaklyDecreasing [x] = True"
| "weaklyDecreasing (x # y # ys) = (if x < y then False else weaklyDecreasing (y # ys))"

definition isPartition :: "int list \<Rightarrow> bool" where
  "isPartition nums =
     (if \<not> weaklyDecreasing nums then False
      else if length nums > 0 \<and> nums ! (length nums - 1) \<le> 0 then False
      else True)"

section \<open>Lattice-word recognizer\<close>

text \<open>
  \<open>latticeWordToMaybePartition sofar word\<close>: the loop over the letters of \<open>word\<close>,
  the branches in the order of the source; \<open>None\<close> is the source's \<open>null\<close>.
  The write \<open>partition[0] += 1\<close> is reached with a nonempty partition only (the first
  test has failed with \<open>num = 1\<close>), and the write \<open>partition[num - 1] += 1\<close> only after
  the comparison of two defined entries succeeded, so both writes are in range.
\<close>

fun latticeWordToMaybePartition :: "partition \<Rightarrow> int list \<Rightarrow> partition option" where
  "latticeWordToMaybePartition part [] = Some part"
| "latticeWordToMaybePartition part (num # word) =
     (if num - 1 = int (length part) then
        latticeWordToMaybePartition (part @ [1]) word
      else if num = 1 then
        latticeWordToMaybePartition (part[0 := part ! 0 + 1]) word
      else if num - 1 > int (length part) then None
      else if js_gt (js_get part (num - 2)) (js_get part (num - 1)) then
        latticeWordToMaybePartition
          (part[nat (num - 1) := part ! nat (num - 1) + 1]) word
      else None)"

definition hwToPartition :: "vertex \<Rightarrow> error + partition" where
  "hwToPartition v =
     (case latticeWordToMaybePartition [] v of
        None \<Rightarrow> Inl AssertionFailed
      | Some result \<Rightarrow> Inr result)"

definition isLatticeWord :: "vertex \<Rightarrow> bool" where
  "isLatticeWord v = (latticeWordToMaybePartition [] v \<noteq> None)"

section \<open>Crystal edge operator\<close>

text \<open>
  The current \<open>crystal_f\<close>: one scan with two numbers, \<open>bottom\<close> and \<open>size\<close>.
  \<open>crystal_f_scan i xs j bottom size\<close> is the loop at position \<open>j\<close> with \<open>xs\<close> the
  letters from \<open>j\<close> on; it returns the final \<open>(bottom, size)\<close>.
\<close>

fun crystal_f_scan :: "int \<Rightarrow> int list \<Rightarrow> int \<Rightarrow> int \<Rightarrow> int \<Rightarrow> int \<times> int" where
  "crystal_f_scan i [] j bottom sz = (bottom, sz)"
| "crystal_f_scan i (x # xs) j bottom sz =
     (if x = i then
        (if sz \<le> 0 then crystal_f_scan i xs (j + 1) j (0 + 1)
         else crystal_f_scan i xs (j + 1) bottom (sz + 1))
      else if x = i + 1 then crystal_f_scan i xs (j + 1) bottom (sz - 1)
      else crystal_f_scan i xs (j + 1) bottom sz)"

definition crystal_f :: "int \<Rightarrow> vertex \<Rightarrow> int" where
  "crystal_f i v =
     (case crystal_f_scan i v 0 0 0 of (bottom, sz) \<Rightarrow> if sz \<le> 0 then -1 else bottom)"

text \<open>
  The earlier \<open>crystal_f\<close> of the same file, with an explicit stack of positions.
  The array \<open>stack\<close> grows at its end (\<open>push\<close>), \<open>pop\<close> removes the last entry and
  does nothing on an empty array, and \<open>stack[0]\<close> is the bottom of the stack.
\<close>

fun crystal_f_stack_scan :: "int \<Rightarrow> int list \<Rightarrow> int \<Rightarrow> int list \<Rightarrow> int list" where
  "crystal_f_stack_scan i [] j stack = stack"
| "crystal_f_stack_scan i (x # xs) j stack =
     (if x = i then crystal_f_stack_scan i xs (j + 1) (stack @ [j])
      else if x = i + 1 then crystal_f_stack_scan i xs (j + 1) (butlast stack)
      else crystal_f_stack_scan i xs (j + 1) stack)"

definition crystal_f_stack :: "int \<Rightarrow> vertex \<Rightarrow> vertex option" where
  "crystal_f_stack i v =
     (case crystal_f_stack_scan i v 0 [] of
        [] \<Rightarrow> None
      | modify # rest \<Rightarrow> Some (v[nat modify := i + 1]))"

section \<open>Conversion of a partition to a highest-weight word\<close>

text \<open>
  \<open>partitionToHw\<close>: row \<open>i\<close> (counted from 0) contributes \<open>part[i]\<close> letters \<open>i + 1\<close>;
  the inner loop \<open>for (j = 0; j < part[i]; j++)\<close> runs \<open>nat (part ! i)\<close> times.
\<close>

fun partitionToHw_rows :: "int \<Rightarrow> partition \<Rightarrow> vertex \<Rightarrow> vertex" where
  "partitionToHw_rows i [] v = v"
| "partitionToHw_rows i (p # part) v =
     partitionToHw_rows (i + 1) part (v @ replicate (nat p) (i + 1))"

definition partitionToHw :: "partition \<Rightarrow> error + vertex" where
  "partitionToHw part =
     (if \<not> isPartition part then Inl AssertionFailed
      else Inr (partitionToHw_rows 0 part []))"

section \<open>Crystal traversal\<close>

definition vertexHeight :: "vertex \<Rightarrow> int" where
  "vertexHeight v = foldl (\<lambda>mx x. max mx x) 0 v"

text \<open>
  The state of the depth-first search of \<open>visitGLnCrystal\<close>. \<open>mutStack\<close> and
  \<open>expStack\<close> are used through \<open>push\<close>, \<open>pop\<close> and \<open>length\<close> only; the head of the
  list is the top of the stack. The object \<open>seen\<close> is keyed by \<open>mutVert.toString()\<close>, the
  decimal letters joined by commas, which determines an array of integers; it is modelled
  as the set of the vertices added. The visitor returns nothing and must not modify the
  vertex it is given: what it does is a change of a state \<open>acc\<close> of its own, computed
  from the vertex as it is at the time of the call.
\<close>

record 'a dfs =
  mutVert :: vertex
  mutStack :: "nat list"
  expStack :: "int list"
  toExpand :: int
  seen :: "vertex set"
  acc :: 'a

text \<open>
  One iteration of the loop \<open>for (;;)\<close>: \<open>None\<close> is \<open>break\<close>, \<open>Some\<close> the state at the
  next iteration. The two stacks are pushed and popped together; were \<open>expStack\<close> empty
  at a backtrack, \<open>toExpand\<close> would become \<open>undefined\<close> and the loop would go on for
  ever without another visit, which is the state left unchanged here. The position
  returned by \<open>crystal_f\<close>, when not negative, is a position of the vertex
  (\<open>crystal_f_range\<close>), so that the writes to \<open>mutVert\<close> are in range.
\<close>

definition visitStep :: "int \<Rightarrow> (vertex \<Rightarrow> 'a \<Rightarrow> 'a) \<Rightarrow> 'a dfs \<Rightarrow> 'a dfs option" where
  "visitStep n visit s =
     (if toExpand s = n then
        (case mutStack s of
           [] \<Rightarrow> None
         | idx # ms \<Rightarrow>
             (case expStack s of
                [] \<Rightarrow> Some s
              | e # es \<Rightarrow>
                  Some (s\<lparr>mutVert := (mutVert s)[idx := mutVert s ! idx - 1],
                          mutStack := ms, expStack := es, toExpand := e\<rparr>)))
      else
        (let maybeIdx = crystal_f (toExpand s) (mutVert s) in
         if maybeIdx < 0 then Some (s\<lparr>toExpand := toExpand s + 1\<rparr>)
         else
           (let idx = nat maybeIdx;
                v = (mutVert s)[idx := mutVert s ! idx + 1] in
            if v \<in> seen s then
              Some (s\<lparr>mutVert := v[idx := v ! idx - 1], toExpand := toExpand s + 1\<rparr>)
            else
              Some (s\<lparr>mutVert := v, seen := insert v (seen s), acc := visit v (acc s),
                      mutStack := idx # mutStack s,
                      expStack := (toExpand s + 1) # expStack s,
                      toExpand := 1\<rparr>))))"

text \<open>The loop itself: it may run for ever, and then has no result.\<close>

partial_function (option) visitLoop ::
  "int \<Rightarrow> (vertex \<Rightarrow> 'a \<Rightarrow> 'a) \<Rightarrow> 'a dfs \<Rightarrow> 'a dfs option" where
  "visitLoop n visit s =
     (case visitStep n visit s of
        None \<Rightarrow> Some s
      | Some s' \<Rightarrow> visitLoop n visit s')"

declare visitLoop.simps [code]

text \<open>The state on entry to the loop: \<open>start\<close> is in \<open>seen\<close> and has been visited.\<close>

definition visitInit :: "(vertex \<Rightarrow> 'a \<Rightarrow> 'a) \<Rightarrow> 'a \<Rightarrow> vertex \<Rightarrow> 'a dfs" where
  "visitInit visit a start =
     \<lparr>mutVert = start, mutStack = [], expStack = [], toExpand = 1,
      seen = {start}, acc = visit start a\<rparr>"

text \<open>
  \<open>visitGLnCrystal n start visit\<close>, with \<open>a\<close> the state of the visitor before the call:
  \<open>None\<close> when the call does not return, \<open>Some (Inl e)\<close> when it throws, and
  \<open>Some (Inr a')\<close> when it returns with the visitor's state \<open>a'\<close>.
\<close>

definition visitGLnCrystal ::
  "int \<Rightarrow> vertex \<Rightarrow> (vertex \<Rightarrow> 'a \<Rightarrow> 'a) \<Rightarrow> 'a \<Rightarrow> (error + 'a) option" where
  "visitGLnCrystal n start visit a =
     (if \<not> isLatticeWord start then Some (Inl AssertionFailed)
      else if \<not> vertexHeight start \<le> n then Some (Inl AssertionFailed)
      else map_option (\<lambda>s. Inr (acc s)) (visitLoop n visit (visitInit visit a start)))"

text \<open>The visitor of \<open>expandInGL\<close> appends a copy of the vertex to the list \<open>crystal\<close>.\<close>

definition expandInGL :: "int \<Rightarrow> vertex \<Rightarrow> (error + vertex list) option" where
  "expandInGL n start = visitGLnCrystal n start (\<lambda>v crystal. crystal @ [v]) []"

text \<open>
  The state after \<open>k\<close> iterations of the loop (the final state once the loop has
  ended): the run of the traversal, also when it does not end.
\<close>

fun visitIter ::
  "nat \<Rightarrow> int \<Rightarrow> (vertex \<Rightarrow> 'a \<Rightarrow> 'a) \<Rightarrow> 'a dfs \<Rightarrow> 'a dfs" where
  "visitIter 0 n visit s = s"
| "visitIter (Suc k) n visit s =
     (case visitStep n visit s of None \<Rightarrow> s | Some s' \<Rightarrow> visitIter k n visit s')"

text \<open>
  The vertices reachable from \<open>start\<close> by the edge operators \<open>f_1 .. f_{n-1}\<close>: applying
  \<open>f_i\<close> writes \<open>i + 1\<close> at the position that \<open>crystal_f\<close> reports.
\<close>

inductive_set reachable :: "int \<Rightarrow> vertex \<Rightarrow> vertex set" for n :: int and start :: vertex where
  start: "start \<in> reachable n start"
| edge: "v \<in> reachable n start \<Longrightarrow> 1 \<le> i \<Longrightarrow> i < n \<Longrightarrow> 0 \<le> crystal_f i v \<Longrightarrow>
         v[nat (crystal_f i v) := i + 1] \<in> reachable n start"

section \<open>Dimension and tensor product\<close>

text \<open>\<open>hookLength\<close>: the loop counts the rows below row \<open>i\<close> that are longer than \<open>j\<close>.\<close>

function hookLength_loop :: "partition \<Rightarrow> nat \<Rightarrow> int \<Rightarrow> nat \<Rightarrow> nat" where
  "hookLength_loop part i j k =
     (if i + k + 1 < length part \<and> part ! (i + k + 1) > j
      then hookLength_loop part i j (k + 1) else k)"
  by pat_completeness auto
termination
  by (relation "measure (\<lambda>(part, i, j, k). length part - (i + k + 1))") auto

declare hookLength_loop.simps [simp del]

definition hookLength :: "partition \<Rightarrow> nat \<Rightarrow> int \<Rightarrow> int" where
  "hookLength part i j = int (hookLength_loop part i j 0) + part ! i - j"

text \<open>
  \<open>dimensionInGL\<close> multiplies quotients of JavaScript numbers, which are IEEE doubles.
  The model computes with exact rationals: it agrees with the source as long as every
  quotient and product is a number that a double holds exactly, and says nothing about
  the rounding errors of the source otherwise. \<open>Math.round\<close> rounds to the nearest
  integer, a half upwards.
\<close>

definition js_round :: "rat \<Rightarrow> int" where
  "js_round x = \<lfloor>x + 1 / 2\<rfloor>"

function dimensionInGL_inner :: "int \<Rightarrow> partition \<Rightarrow> nat \<Rightarrow> int \<Rightarrow> rat \<Rightarrow> rat" where
  "dimensionInGL_inner n part i j product =
     (if j \<le> part ! i then
        dimensionInGL_inner n part i (j + 1)
          (product * (of_int (n + j - (int i + 1)) / of_int (hookLength part i (j - 1))))
      else product)"
  by pat_completeness auto
termination
  by (relation "measure (\<lambda>(n, part, i, j, product). nat (part ! i + 1 - j))") auto

declare dimensionInGL_inner.simps [simp del]

function dimensionInGL_outer :: "int \<Rightarrow> partition \<Rightarrow> nat \<Rightarrow> rat \<Rightarrow> rat" where
  "dimensionInGL_outer n part i product =
     (if i < length part then
        dimensionInGL_outer n part (i + 1) (dimensionInGL_inner n part i 1 product)
      else product)"
  by pat_completeness auto
termination
  by (relation "measure (\<lambda>(n, part, i, product). length part - i)") auto

declare dimensionInGL_outer.simps [simp del]

definition dimensionInGL :: "int \<Rightarrow> partition \<Rightarrow> error + int" where
  "dimensionInGL n part =
     (if \<not> isPartition part then Inl AssertionFailed
      else Inr (js_round (dimensionInGL_outer n part 0 1)))"

text \<open>
  \<open>tensorPartitions\<close> after the exchange of its two arguments: the traversal of the
  crystal of \<open>partRight\<close>, whose visitor extends \<open>partLeft\<close> by the vertex and keeps the
  partition when there is one.
\<close>

definition tensorTraverse :: "int \<Rightarrow> partition \<Rightarrow> partition \<Rightarrow> (error + partition list) option" where
  "tensorTraverse n partLeft partRight =
     (case partitionToHw partRight of
        Inl e \<Rightarrow> Some (Inl e)
      | Inr hw \<Rightarrow>
          visitGLnCrystal n hw
            (\<lambda>v partitions.
               case latticeWordToMaybePartition partLeft v of
                 None \<Rightarrow> partitions
               | Some maybePartition \<Rightarrow> partitions @ [maybePartition])
            [])"

definition tensorPartitions :: "int \<Rightarrow> partition \<Rightarrow> partition \<Rightarrow> (error + partition list) option" where
  "tensorPartitions n partLeft partRight =
     (if \<not> (n \<ge> 2 \<and> isPartition partLeft \<and> isPartition partRight) then Some (Inl AssertionFailed)
      else
        (case dimensionInGL n partLeft of
           Inl e \<Rightarrow> Some (Inl e)
         | Inr dim1 \<Rightarrow>
             (case dimensionInGL n partRight of
                Inl e \<Rightarrow> Some (Inl e)
              | Inr dim2 \<Rightarrow>
                  if dim1 < dim2 then tensorTraverse n partRight partLeft
                  else tensorTraverse n partLeft partRight)))"

section \<open>Linear combinations of partitions\<close>

text \<open>
  An entry \<open>{part, mult}\<close> of a linear combination is a pair. \<open>Array.prototype.sort\<close>
  with a comparison function is a stable sort: \<open>js_sort\<close> is the stable insertion
  sort, which puts \<open>x\<close> before \<open>y\<close> when \<open>cmp x y \<le> 0\<close>. (An engine whose sort is
  not stable returns another sorted arrangement of the same entries.) Multiplicities are
  integers; the source adds doubles, which is the same as long as the sums stay below
  \<open>2^53\<close> in absolute value.
\<close>

type_synonym linear = "(partition \<times> int) list"

fun insort_cmp :: "('a \<Rightarrow> 'a \<Rightarrow> int) \<Rightarrow> 'a \<Rightarrow> 'a list \<Rightarrow> 'a list" where
  "insort_cmp cmp x [] = [x]"
| "insort_cmp cmp x (y # ys) =
     (if cmp x y \<le> 0 then x # y # ys else y # insort_cmp cmp x ys)"

definition js_sort :: "('a \<Rightarrow> 'a \<Rightarrow> int) \<Rightarrow> 'a list \<Rightarrow> 'a list" where
  "js_sort cmp xs = foldr (insort_cmp cmp) xs []"

text \<open>The loop of \<open>algebraNormalise\<close> over the sorted entries; \<open>result\<close> grows at its end.\<close>

fun algebraNormalise_loop :: "linear \<Rightarrow> linear \<Rightarrow> linear" where
  "algebraNormalise_loop [] result = result"
| "algebraNormalise_loop ((part, mlt) # rest) result =
     (if mlt = 0 then algebraNormalise_loop rest result
      else if length result = 0 \<or> compareLists (fst (last result)) part \<noteq> 0 then
        algebraNormalise_loop rest (result @ [(part, mlt)])
      else
        (let newMult = snd (last result) + mlt in
         if newMult = 0 then algebraNormalise_loop rest (butlast result)
         else algebraNormalise_loop rest (butlast result @ [(fst (last result), newMult)])))"

definition algebraNormalise :: "linear \<Rightarrow> linear" where
  "algebraNormalise lin =
     algebraNormalise_loop
       (js_sort (\<lambda>e1 e2. - compareLists (fst e1) (fst e2)) lin) []"

section \<open>Relations and invariants used in the proofs\<close>


text \<open>
  The two numbers describe the stack: a positive \<open>size\<close> is the height of the stack and
  \<open>bottom\<close> is its lowest entry; a \<open>size\<close> that is zero or negative stands for the
  empty stack.
\<close>

definition stack_rel :: "int \<Rightarrow> int \<Rightarrow> int list \<Rightarrow> bool" where
  "stack_rel bottom sz stack =
     (if sz \<le> 0 then stack = [] else int (length stack) = sz \<and> hd stack = bottom)"

text \<open>
  The path of the search, read off the two stacks: the current vertex with the operator
  to try next, then each vertex above it on the path with the operator at which it
  resumes. Undoing the write at the position on top of \<open>mutStack\<close> gives the vertex above.
\<close>

fun ancestors :: "vertex \<Rightarrow> nat list \<Rightarrow> int list \<Rightarrow> (vertex \<times> int) list" where
  "ancestors v (idx # ms) (e # es) =
     (v[idx := v ! idx - 1], e) # ancestors (v[idx := v ! idx - 1]) ms es"
| "ancestors v ms es = []"

definition frames :: "'a dfs \<Rightarrow> (vertex \<times> int) list" where
  "frames s = (mutVert s, toExpand s) # ancestors (mutVert s) (mutStack s) (expStack s)"

definition edges_closed :: "int \<Rightarrow> vertex set \<Rightarrow> vertex \<Rightarrow> int \<Rightarrow> bool" where
  "edges_closed n S v r =
     (\<forall>i. 1 \<le> i \<and> i < r \<and> i < n \<and> 0 \<le> crystal_f i v \<longrightarrow> v[nat (crystal_f i v) := i + 1] \<in> S)"

definition dfs_inv :: "int \<Rightarrow> vertex \<Rightarrow> vertex list dfs \<Rightarrow> bool" where
  "dfs_inv n start s =
     (length (mutStack s) = length (expStack s) \<and>
      fst (last (frames s)) = start \<and>
      (\<forall>(v, r) \<in> set (frames s). 1 \<le> r \<and> r \<le> n \<and> v \<in> seen s \<and> edges_closed n (seen s) v r) \<and>
      (\<forall>v \<in> seen s. v \<notin> fst ` set (frames s) \<longrightarrow> edges_closed n (seen s) v n) \<and>
      seen s \<subseteq> reachable n start \<and> set (acc s) = seen s \<and> distinct (acc s))"

definition dfs_potential :: "int \<Rightarrow> 'a dfs \<Rightarrow> nat" where
  "dfs_potential n s = sum_list (map (\<lambda>(v, r). nat (n - r + 1)) (frames s))"

definition dfs_unseen :: "int \<Rightarrow> vertex \<Rightarrow> 'a dfs \<Rightarrow> nat" where
  "dfs_unseen n start s = card (reachable n start - seen s)"

definition dfs_less :: "int \<Rightarrow> vertex \<Rightarrow> 'a dfs \<Rightarrow> 'a dfs \<Rightarrow> bool" where
  "dfs_less n start s' s =
     (dfs_unseen n start s' < dfs_unseen n start s \<or>
      (dfs_unseen n start s' = dfs_unseen n start s \<and> dfs_potential n s' < dfs_potential n s))"

text \<open>
  The states of the traversal of the empty vertex when \<open>n\<close> is below \<open>1\<close>: \<open>toExpand\<close>
  is beyond \<open>n\<close> and only grows.
\<close>

definition spinning :: "int \<Rightarrow> vertex list dfs \<Rightarrow> bool" where
  "spinning n s =
     (mutVert s = [] \<and> mutStack s = [] \<and> n < toExpand s \<and> seen s = {[]} \<and> acc s = [[]])"

text \<open>
  The state of the traversal with a visitor \<open>visit\<close>, from the state of the traversal
  whose visitor records its arguments: \<open>visit\<close> has been applied to the recorded vertices
  in order.
\<close>

definition replay :: "(vertex \<Rightarrow> 'a \<Rightarrow> 'a) \<Rightarrow> 'a \<Rightarrow> vertex list dfs \<Rightarrow> 'a dfs" where
  "replay visit a s =
     \<lparr>mutVert = mutVert s, mutStack = mutStack s, expStack = expStack s,
      toExpand = toExpand s, seen = seen s, acc = fold visit (acc s) a\<rparr>"

text \<open>
  The lattice words in the words of the source, independently of the recognizer: "a
  vertex is highest-weight if it is a lattice word, meaning that every prefix of the word
  has partition weight". The weight of a word counts its letters: row \<open>k\<close> (from 0) of the
  weight of \<open>v\<close> has as many cells as the letter \<open>k + 1\<close> occurs in \<open>v\<close>. A word has partition
  weight when its letters are positive and no letter \<open>x \<ge> 2\<close> occurs more often than \<open>x - 1\<close>.
  The height of a vertex is "the maximum element it contains", \<open>0\<close> for the empty vertex.
\<close>

definition heightSpec :: "vertex \<Rightarrow> int" where
  "heightSpec v = Max (insert 0 (set v))"

definition latticeCondition :: "vertex \<Rightarrow> bool" where
  "latticeCondition u =
     (\<forall>x\<in>set u. 1 \<le> x \<and> (2 \<le> x \<longrightarrow> count_list u x \<le> count_list u (x - 1)))"

definition latticeWordSpec :: "vertex \<Rightarrow> bool" where
  "latticeWordSpec v = (\<forall>k\<in>{0..length v}. latticeCondition (take k v))"

definition weightOf :: "vertex \<Rightarrow> partition" where
  "weightOf v = map (\<lambda>k. int (count_list v (int k + 1))) [0..<nat (heightSpec v)]"

text \<open>
  The canonical form of a linear combination: sorted descending by partition in the
  order of \<open>compareLists\<close>, no partition twice, no multiplicity zero.
\<close>

definition normalised :: "linear \<Rightarrow> bool" where
  "normalised lin =
     (sorted_wrt (\<lambda>e1 e2. compareLists (fst e1) (fst e2) \<ge> 0) lin \<and>
      distinct (map fst lin) \<and> (\<forall>e\<in>set lin. snd e \<noteq> 0))"

text \<open>
  The same in the lexicographic order of lists, which is the order of \<open>compareLists\<close>:
  descending, and strictly descending without zero multiplicities.
\<close>

definition desc :: "linear \<Rightarrow> bool" where
  "desc lin = sorted_wrt (\<lambda>e1 e2. fst e2 \<le> fst e1) lin"

definition strict_desc :: "linear \<Rightarrow> bool" where
  "strict_desc lin = (sorted_wrt (\<lambda>e1 e2. fst e2 < fst e1) lin \<and> (\<forall>e\<in>set lin. snd e \<noteq> 0))"

text \<open>The coefficient of a partition in a linear combination: the sum of its multiplicities.\<close>

definition coeff :: "linear \<Rightarrow> partition \<Rightarrow> int" where
  "coeff lin k = sum_list (map snd (filter (\<lambda>e. fst e = k) lin))"

text \<open>
  The vertices passed to the visitor during the first \<open>k\<close> iterations of the loop, in
  the order of the calls: the state of the visitor that records its arguments.
\<close>

definition visitorCalls :: "int \<Rightarrow> vertex \<Rightarrow> nat \<Rightarrow> vertex list" where
  "visitorCalls n start k =
     acc (visitIter k n (\<lambda>v crystal. crystal @ [v])
            (visitInit (\<lambda>v crystal. crystal @ [v]) [] start))"

section \<open>The two versions of the edge operator agree\<close>

lemma stack_rel_push:
  "stack_rel bottom sz stack \<Longrightarrow>
   stack_rel (if sz \<le> 0 then j else bottom) (if sz \<le> 0 then 1 else sz + 1) (stack @ [j])"
  by (cases stack) (auto simp: stack_rel_def split: if_splits)

lemma stack_rel_pop:
  assumes "stack_rel bottom sz stack"
  shows "stack_rel bottom (sz - 1) (butlast stack)"
proof (cases "sz \<le> 0")
  case True
  with assms show ?thesis by (simp add: stack_rel_def)
next
  case False
  with assms have len: "int (length stack) = sz" and h: "hd stack = bottom"
    by (simp_all add: stack_rel_def)
  show ?thesis
  proof (cases "sz - 1 \<le> 0")
    case True
    with False len have "length stack = 1" by simp
    then have "butlast stack = []" by (cases stack) auto
    with True show ?thesis by (simp add: stack_rel_def)
  next
    case False
    with len have "length stack \<ge> 2" by simp
    then obtain a b rest where "stack = a # b # rest"
      by (cases stack; cases "tl stack") auto
    with False len h show ?thesis by (auto simp: stack_rel_def)
  qed
qed

lemma scan_stack_rel:
  "stack_rel bottom sz stack \<Longrightarrow>
   (case crystal_f_scan i xs j bottom sz of
      (b', s') \<Rightarrow> stack_rel b' s' (crystal_f_stack_scan i xs j stack))"
proof (induction xs arbitrary: j bottom sz stack)
  case Nil
  then show ?case by simp
next
  case (Cons x xs)
  show ?case
  proof (cases "x = i")
    case True
    from stack_rel_push [OF Cons.prems, of j]
    show ?thesis using True Cons.IH by (cases "sz \<le> 0") simp_all
  next
    case False
    show ?thesis
    proof (cases "x = i + 1")
      case True
      from stack_rel_pop [OF Cons.prems] show ?thesis
        using True \<open>x \<noteq> i\<close> Cons.IH by simp
    next
      case False
      with \<open>x \<noteq> i\<close> Cons.prems Cons.IH show ?thesis by simp
    qed
  qed
qed

text \<open>The position reported by the scan is a position of the word that holds the letter \<open>i\<close>.\<close>

lemma nth_Cons_shift: "j + 1 \<le> b \<Longrightarrow> (x # xs) ! nat (b - j) = xs ! nat (b - (j + 1))"
proof -
  assume "j + 1 \<le> b"
  then have "nat (b - j) = Suc (nat (b - (j + 1)))" by linarith
  then show ?thesis by simp
qed

lemma scan_range_lift:
  assumes "(0 < s1 \<and> b' = b1) \<or>
           (j + 1 \<le> b' \<and> b' < j + 1 + int (length xs) \<and> xs ! nat (b' - (j + 1)) = i)"
  shows "(0 < s1 \<and> b' = b1) \<or>
         (j \<le> b' \<and> b' < j + int (length (x # xs)) \<and> (x # xs) ! nat (b' - j) = i)"
  using assms nth_Cons_shift [of j b' x xs] by auto

lemma scan_bottom_range:
  "crystal_f_scan i xs j bottom sz = (b', s') \<Longrightarrow> 0 < s' \<Longrightarrow>
   (0 < sz \<and> b' = bottom) \<or> (j \<le> b' \<and> b' < j + int (length xs) \<and> xs ! nat (b' - j) = i)"
proof (induction xs arbitrary: j bottom sz)
  case Nil
  then show ?case by simp
next
  case (Cons x xs)
  show ?case
  proof (cases "x = i")
    case True
    show ?thesis
    proof (cases "sz \<le> 0")
      case le: True
      with True Cons.prems have "crystal_f_scan i xs (j + 1) j 1 = (b', s')" by simp
      from scan_range_lift [OF Cons.IH [OF this Cons.prems(2)], of x] True
      show ?thesis by auto
    next
      case gt: False
      with True Cons.prems have "crystal_f_scan i xs (j + 1) bottom (sz + 1) = (b', s')"
        by simp
      from scan_range_lift [OF Cons.IH [OF this Cons.prems(2)], of x] gt
      show ?thesis by auto
    qed
  next
    case False
    show ?thesis
    proof (cases "x = i + 1")
      case True
      with False Cons.prems have "crystal_f_scan i xs (j + 1) bottom (sz - 1) = (b', s')"
        by simp
      from scan_range_lift [OF Cons.IH [OF this Cons.prems(2)], of x]
      show ?thesis by auto
    next
      case False
      with \<open>x \<noteq> i\<close> Cons.prems have "crystal_f_scan i xs (j + 1) bottom sz = (b', s')"
        by simp
      from scan_range_lift [OF Cons.IH [OF this Cons.prems(2)], of x]
      show ?thesis by auto
    qed
  qed
qed

lemma crystal_f_range:
  assumes "0 \<le> crystal_f i v"
  shows "crystal_f i v < int (length v) \<and> v ! nat (crystal_f i v) = i"
proof -
  obtain b s where bs: "crystal_f_scan i v 0 0 0 = (b, s)" by (cases "crystal_f_scan i v 0 0 0")
  with assms have pos: "0 < s" and eq: "crystal_f i v = b"
    by (auto simp: crystal_f_def split: if_splits)
  from scan_bottom_range [OF bs pos] eq show ?thesis by auto
qed

lemma crystal_f_neg: "crystal_f i v < 0 \<Longrightarrow> crystal_f i v = -1"
proof -
  assume neg: "crystal_f i v < 0"
  obtain b s where bs: "crystal_f_scan i v 0 0 0 = (b, s)" by (cases "crystal_f_scan i v 0 0 0")
  show ?thesis
  proof (cases "s \<le> 0")
    case True
    with bs show ?thesis by (simp add: crystal_f_def)
  next
    case False
    then have "0 < s" by simp
    from scan_bottom_range [OF bs this] have "0 \<le> b" by auto
    with bs False neg show ?thesis by (simp add: crystal_f_def)
  qed
qed

text \<open>
  C2. The two-integer \<open>crystal_f\<close> returns \<open>-1\<close> exactly when the explicit stack of the
  bracket matching ends empty (no opener is left unmatched), and otherwise returns the
  bottom of that stack, the left-most opener that is never closed. Hence the stack-based
  version returns \<open>null\<close> exactly when the two-integer version returns \<open>-1\<close>, and
  otherwise the vertex it returns is the input with the letter at the reported position
  replaced by \<open>i + 1\<close>.
\<close>

theorem crystal_f_refines_stack:
  "crystal_f i v =
     (case crystal_f_stack_scan i v 0 [] of [] \<Rightarrow> -1 | bottom # rest \<Rightarrow> bottom)
   \<and> crystal_f_stack i v =
     (if crystal_f i v = -1 then None else Some (v[nat (crystal_f i v) := i + 1]))"
proof -
  obtain b s where bs: "crystal_f_scan i v 0 0 0 = (b, s)" by (cases "crystal_f_scan i v 0 0 0")
  have "stack_rel 0 0 []" by (simp add: stack_rel_def)
  from scan_stack_rel [OF this, of i v 0] bs
  have rel: "stack_rel b s (crystal_f_stack_scan i v 0 [])" by simp
  show ?thesis
  proof (cases "s \<le> 0")
    case True
    with rel bs show ?thesis
      by (simp add: stack_rel_def crystal_f_def crystal_f_stack_def)
  next
    case False
    then have pos: "0 < s" by simp
    from scan_bottom_range [OF bs pos] have "0 \<le> b" by auto
    moreover from rel False obtain rest where "crystal_f_stack_scan i v 0 [] = b # rest"
      by (cases "crystal_f_stack_scan i v 0 []") (auto simp: stack_rel_def)
    ultimately show ?thesis using bs False
      by (simp add: crystal_f_def crystal_f_stack_def)
  qed
qed

section \<open>Round trip between partitions and highest-weight words\<close>

lemma weaklyDecreasing_sorted_wrt: "weaklyDecreasing xs = sorted_wrt (\<lambda>a b. a \<ge> b) xs"
  by (induction xs rule: weaklyDecreasing.induct) auto

lemma isPartition_iff:
  "isPartition p = (sorted_wrt (\<lambda>a b. a \<ge> b) p \<and> (\<forall>x\<in>set p. 1 \<le> x))"
proof (cases "p = []")
  case True
  then show ?thesis by (simp add: isPartition_def)
next
  case False
  then have l: "p ! (length p - 1) = last p" by (simp add: last_conv_nth)
  have "sorted_wrt (\<lambda>a b. a \<ge> b) p \<Longrightarrow> x \<in> set p \<Longrightarrow> last p \<le> x" for x
  proof -
    assume s: "sorted_wrt (\<lambda>a b. a \<ge> b) p" and x: "x \<in> set p"
    from False obtain ys y where p: "p = ys @ [y]" by (cases p rule: rev_cases) auto
    with s x show ?thesis by (auto simp: sorted_wrt_append)
  qed
  note le = this
  from False have mem: "last p \<in> set p" by simp
  show ?thesis
  proof (cases "sorted_wrt (\<lambda>a b. a \<ge> b) p")
    case True
    have "(\<forall>x\<in>set p. 1 \<le> x) = (1 \<le> last p)"
    proof
      assume "\<forall>x\<in>set p. 1 \<le> x"
      with mem show "1 \<le> last p" by blast
    next
      assume l1: "1 \<le> last p"
      show "\<forall>x\<in>set p. 1 \<le> x"
      proof
        fix x assume "x \<in> set p"
        from le [OF True this] l1 show "1 \<le> x" by simp
      qed
    qed
    with True False l show ?thesis
      by (auto simp: isPartition_def weaklyDecreasing_sorted_wrt)
  next
    case False
    then show ?thesis by (simp add: isPartition_def weaklyDecreasing_sorted_wrt)
  qed
qed

lemma latticeWord_append:
  "latticeWordToMaybePartition q (a @ b) =
     (case latticeWordToMaybePartition q a of None \<Rightarrow> None
      | Some q' \<Rightarrow> latticeWordToMaybePartition q' b)"
  by (induction a arbitrary: q) auto

lemma latticeWord_row_rest:
  "q = [] \<or> k + int m \<le> last q \<Longrightarrow>
   latticeWordToMaybePartition (q @ [k]) (replicate m (int (length q) + 1)) = Some (q @ [k + int m])"
proof (induction m arbitrary: k)
  case 0
  then show ?case by simp
next
  case (Suc m)
  show ?case
  proof (cases "q = []")
    case True
    with Suc.IH [of "k + 1"] show ?thesis by simp
  next
    case False
    with Suc.prems have lt: "k < last q" by simp
    from False have "(q @ [k]) ! nat (int (length q) - 1) = last q"
      by (simp add: nth_append last_conv_nth nat_diff_distrib')
    with False lt have gt: "js_gt (js_get (q @ [k]) (int (length q) + 1 - 2)) (js_get (q @ [k]) (int (length q) + 1 - 1))"
      by (simp add: js_gt_def js_get_def)
    from Suc.prems False have "q = [] \<or> (k + 1) + int m \<le> last q" by simp
    from Suc.IH [OF this] gt False show ?thesis by simp
  qed
qed

lemma latticeWord_row:
  assumes "1 \<le> p" and "q = [] \<or> p \<le> last q"
  shows "latticeWordToMaybePartition q (replicate (nat p) (int (length q) + 1)) = Some (q @ [p])"
proof -
  from assms(1) obtain m where m: "nat p = Suc m" by (cases "nat p") auto
  then have p: "p = 1 + int m" by linarith
  with assms(2) have "q = [] \<or> 1 + int m \<le> last q" by simp
  from latticeWord_row_rest [OF this] m p show ?thesis by simp
qed

lemma latticeWord_rows:
  "sorted_wrt (\<lambda>a b. a \<ge> b) (q @ part) \<Longrightarrow> \<forall>x\<in>set part. 1 \<le> x \<Longrightarrow> int (length q) = i \<Longrightarrow>
   latticeWordToMaybePartition [] v = Some q \<Longrightarrow>
   latticeWordToMaybePartition [] (partitionToHw_rows i part v) = Some (q @ part)"
proof (induction part arbitrary: i q v)
  case Nil
  then show ?case by simp
next
  case (Cons p part)
  from Cons.prems(1) have "q = [] \<or> p \<le> last q"
    by (cases q rule: rev_cases) (auto simp: sorted_wrt_append)
  moreover from Cons.prems(2) have "1 \<le> p" by simp
  ultimately have "latticeWordToMaybePartition q (replicate (nat p) (int (length q) + 1)) = Some (q @ [p])"
    by (rule latticeWord_row [rotated])
  with Cons.prems(3,4)
  have v: "latticeWordToMaybePartition [] (v @ replicate (nat p) (i + 1)) = Some (q @ [p])"
    by (simp add: latticeWord_append)
  from Cons.prems(1) have s: "sorted_wrt (\<lambda>a b. a \<ge> b) ((q @ [p]) @ part)" by simp
  from Cons.prems(2) have pos: "\<forall>x\<in>set part. 1 \<le> x" by simp
  from Cons.prems(3) have len: "int (length (q @ [p])) = i + 1" by simp
  from Cons.IH [OF s pos len v] show ?case by simp
qed

text \<open>
  C3. For every valid partition \<open>p\<close> (the empty one included), \<open>partitionToHw\<close>
  returns a word, and the lattice-word recognizer, started from the empty partition on
  that word, succeeds and returns \<open>p\<close>.
\<close>

theorem partitionToHw_roundtrip:
  assumes "isPartition p"
  shows "\<exists>v. partitionToHw p = Inr v \<and> latticeWordToMaybePartition [] v = Some p"
proof -
  from assms have s: "sorted_wrt (\<lambda>a b. a \<ge> b) ([] @ p)" and pos: "\<forall>x\<in>set p. 1 \<le> x"
    by (simp_all add: isPartition_iff)
  have "latticeWordToMaybePartition [] (partitionToHw_rows 0 p []) = Some ([] @ p)"
    by (rule latticeWord_rows [OF s pos]) simp_all
  with assms show ?thesis by (simp add: partitionToHw_def)
qed

theorem partitionToHw_roundtrip_witness:
  "isPartition [4, 2, 1] \<and> partitionToHw [4, 2, 1] = Inr [1, 1, 1, 1, 2, 2, 3]
   \<and> latticeWordToMaybePartition [] [1, 1, 1, 1, 2, 2, 3] = Some [4, 2, 1]"
proof -
  have h: "isPartition [4, 2, 1]" by (simp add: isPartition_def)
  have v: "partitionToHw [4, 2, 1] = Inr [1, 1, 1, 1, 2, 2, 3]"
    by (simp add: partitionToHw_def isPartition_def numeral_eq_Suc)
  from partitionToHw_roundtrip [OF h] v h show ?thesis by auto
qed

section \<open>Correctness of the traversal\<close>

text \<open>The edge of the traversal: the write \<open>+= 1\<close> at a position holding \<open>i\<close>.\<close>

lemma edge_write:
  assumes "0 \<le> crystal_f i v"
  shows "v[nat (crystal_f i v) := v ! nat (crystal_f i v) + 1] = v[nat (crystal_f i v) := i + 1]"
    and "(v[nat (crystal_f i v) := i + 1])[nat (crystal_f i v) := v[nat (crystal_f i v) := i + 1] ! nat (crystal_f i v) - 1] = v"
proof -
  from crystal_f_range [OF assms]
  have r: "nat (crystal_f i v) < length v" and l: "v ! nat (crystal_f i v) = i"
    using assms by auto
  from l show "v[nat (crystal_f i v) := v ! nat (crystal_f i v) + 1] = v[nat (crystal_f i v) := i + 1]"
    by simp
  from r l show "(v[nat (crystal_f i v) := i + 1])[nat (crystal_f i v) := v[nat (crystal_f i v) := i + 1] ! nat (crystal_f i v) - 1] = v"
    by (simp add: list_update_same_conv)
qed

lemma visitStep_cases [consumes 1, case_names Backtrack Stuck NoEdge Seen Fresh]:
  assumes "visitStep n visit s = Some s'"
  obtains
    (Backtrack) idx ms e es where "toExpand s = n" "mutStack s = idx # ms" "expStack s = e # es"
      "s' = s\<lparr>mutVert := (mutVert s)[idx := mutVert s ! idx - 1],
              mutStack := ms, expStack := es, toExpand := e\<rparr>"
  | (Stuck) idx ms where "toExpand s = n" "mutStack s = idx # ms" "expStack s = []" "s' = s"
  | (NoEdge) "toExpand s \<noteq> n" "crystal_f (toExpand s) (mutVert s) < 0"
      "s' = s\<lparr>toExpand := toExpand s + 1\<rparr>"
  | (Seen) "toExpand s \<noteq> n" "0 \<le> crystal_f (toExpand s) (mutVert s)"
      "(mutVert s)[nat (crystal_f (toExpand s) (mutVert s)) := toExpand s + 1] \<in> seen s"
      "s' = s\<lparr>toExpand := toExpand s + 1\<rparr>"
  | (Fresh) "toExpand s \<noteq> n" "0 \<le> crystal_f (toExpand s) (mutVert s)"
      "(mutVert s)[nat (crystal_f (toExpand s) (mutVert s)) := toExpand s + 1] \<notin> seen s"
      "s' = s\<lparr>mutVert := (mutVert s)[nat (crystal_f (toExpand s) (mutVert s)) := toExpand s + 1],
              seen := insert ((mutVert s)[nat (crystal_f (toExpand s) (mutVert s)) := toExpand s + 1]) (seen s),
              acc := visit ((mutVert s)[nat (crystal_f (toExpand s) (mutVert s)) := toExpand s + 1]) (acc s),
              mutStack := nat (crystal_f (toExpand s) (mutVert s)) # mutStack s,
              expStack := (toExpand s + 1) # expStack s,
              toExpand := 1\<rparr>"
proof (cases "toExpand s = n")
  case True
  show ?thesis
  proof (cases "mutStack s")
    case Nil
    with True assms show ?thesis by (simp add: visitStep_def)
  next
    case (Cons idx ms)
    show ?thesis
    proof (cases "expStack s")
      case Nil
      with True Cons assms have "s' = s" by (simp add: visitStep_def)
      with True Cons Nil show ?thesis by (rule Stuck)
    next
      case (Cons e es)
      with True \<open>mutStack s = idx # ms\<close> assms
      have "s' = s\<lparr>mutVert := (mutVert s)[idx := mutVert s ! idx - 1],
              mutStack := ms, expStack := es, toExpand := e\<rparr>"
        by (simp add: visitStep_def)
      with True \<open>mutStack s = idx # ms\<close> Cons show ?thesis by (rule Backtrack)
    qed
  qed
next
  case False
  show ?thesis
  proof (cases "crystal_f (toExpand s) (mutVert s) < 0")
    case True
    with False assms have "s' = s\<lparr>toExpand := toExpand s + 1\<rparr>"
      by (simp add: visitStep_def)
    with False True show ?thesis by (rule NoEdge)
  next
    case nonneg: False
    then have ge: "0 \<le> crystal_f (toExpand s) (mutVert s)" by simp
    note w = edge_write [OF ge]
    show ?thesis
    proof (cases "(mutVert s)[nat (crystal_f (toExpand s) (mutVert s)) := toExpand s + 1] \<in> seen s")
      case True
      with False nonneg assms w have "s' = s\<lparr>toExpand := toExpand s + 1\<rparr>"
        by (simp add: visitStep_def Let_def)
      with False ge True show ?thesis by (rule Seen)
    next
      case notin: False
      with False nonneg assms w
      have "s' = s\<lparr>mutVert := (mutVert s)[nat (crystal_f (toExpand s) (mutVert s)) := toExpand s + 1],
              seen := insert ((mutVert s)[nat (crystal_f (toExpand s) (mutVert s)) := toExpand s + 1]) (seen s),
              acc := visit ((mutVert s)[nat (crystal_f (toExpand s) (mutVert s)) := toExpand s + 1]) (acc s),
              mutStack := nat (crystal_f (toExpand s) (mutVert s)) # mutStack s,
              expStack := (toExpand s + 1) # expStack s,
              toExpand := 1\<rparr>"
        by (simp add: visitStep_def Let_def)
      with False ge notin show ?thesis by (rule Fresh)
    qed
  qed
qed

lemma visitStep_None:
  "visitStep n visit s = None \<longleftrightarrow> toExpand s = n \<and> mutStack s = []"
  by (auto simp: visitStep_def Let_def split: list.splits)


lemma edges_closed_mono: "edges_closed n S v r \<Longrightarrow> S \<subseteq> S' \<Longrightarrow> edges_closed n S' v r"
  by (auto simp: edges_closed_def)

lemma edges_closed_one: "edges_closed n S v 1"
  unfolding edges_closed_def by (intro allI impI) linarith

lemma edges_closed_next:
  assumes "edges_closed n S v r"
    and "0 \<le> crystal_f r v \<Longrightarrow> v[nat (crystal_f r v) := r + 1] \<in> S"
  shows "edges_closed n S v (r + 1)"
  unfolding edges_closed_def
proof (intro allI impI)
  fix i assume i: "1 \<le> i \<and> i < r + 1 \<and> i < n \<and> 0 \<le> crystal_f i v"
  show "v[nat (crystal_f i v) := i + 1] \<in> S"
  proof (cases "i = r")
    case True
    with i assms(2) show ?thesis by simp
  next
    case False
    with i have "1 \<le> i \<and> i < r \<and> i < n \<and> 0 \<le> crystal_f i v" by simp
    with assms(1) show ?thesis unfolding edges_closed_def by blast
  qed
qed

lemma reachable_shape:
  "v \<in> reachable n start \<Longrightarrow> length v = length start \<and> set v \<subseteq> set start \<union> {2..n}"
proof (induction rule: reachable.induct)
  case start
  then show ?case by simp
next
  case (edge v i)
  have "set (v[nat (crystal_f i v) := i + 1]) \<subseteq> insert (i + 1) (set v)"
    by (rule set_update_subset_insert)
  with edge show ?case by auto
qed

lemma finite_reachable: "finite (reachable n start)"
proof -
  have "reachable n start \<subseteq> {xs. set xs \<subseteq> set start \<union> {2..n} \<and> length xs = length start}"
    using reachable_shape by blast
  moreover have "finite {xs. set xs \<subseteq> set start \<union> {2..n} \<and> length xs = length start}"
    by (rule finite_lists_length_eq) simp
  ultimately show ?thesis by (rule finite_subset)
qed

lemma dfs_invD:
  assumes "dfs_inv n start s"
  shows "length (mutStack s) = length (expStack s)"
    and "fst (last (frames s)) = start"
    and "\<And>v r. (v, r) \<in> set (frames s) \<Longrightarrow> 1 \<le> r \<and> r \<le> n \<and> v \<in> seen s \<and> edges_closed n (seen s) v r"
    and "\<And>v. v \<in> seen s \<Longrightarrow> v \<notin> fst ` set (frames s) \<Longrightarrow> edges_closed n (seen s) v n"
    and "seen s \<subseteq> reachable n start" and "set (acc s) = seen s" and "distinct (acc s)"
  using assms unfolding dfs_inv_def by auto

lemma dfs_invI:
  assumes "length (mutStack s) = length (expStack s)"
    and "fst (last (frames s)) = start"
    and "\<And>v r. (v, r) \<in> set (frames s) \<Longrightarrow> 1 \<le> r \<and> r \<le> n \<and> v \<in> seen s \<and> edges_closed n (seen s) v r"
    and "\<And>v. v \<in> seen s \<Longrightarrow> v \<notin> fst ` set (frames s) \<Longrightarrow> edges_closed n (seen s) v n"
    and "seen s \<subseteq> reachable n start" and "set (acc s) = seen s" and "distinct (acc s)"
  shows "dfs_inv n start s"
  using assms unfolding dfs_inv_def by auto

lemma step_backtrack:
  assumes inv: "dfs_inv n start s"
    and t: "toExpand s = n" and ms: "mutStack s = idx # ms" and es: "expStack s = e # es"
    and s': "s' = s\<lparr>mutVert := (mutVert s)[idx := mutVert s ! idx - 1],
              mutStack := ms, expStack := es, toExpand := e\<rparr>"
  shows "dfs_inv n start s' \<and> dfs_less n start s' s"
proof -
  note d = dfs_invD [OF inv]
  have fr: "frames s = (mutVert s, n) # frames s'"
    using t ms es s' by (simp add: frames_def)
  have ne: "frames s' \<noteq> []" by (simp add: frames_def)
  have sn: "seen s' = seen s" and ac: "acc s' = acc s" using s' by simp_all
  have "dfs_inv n start s'"
  proof (rule dfs_invI)
    show "length (mutStack s') = length (expStack s')" using d(1) ms es s' by simp
    show "fst (last (frames s')) = start" using d(2) fr ne by simp
    show "1 \<le> r \<and> r \<le> n \<and> v \<in> seen s' \<and> edges_closed n (seen s') v r"
      if "(v, r) \<in> set (frames s')" for v r
      using d(3) [of v r] that fr sn by simp
    show "edges_closed n (seen s') v n" if "v \<in> seen s'" "v \<notin> fst ` set (frames s')" for v
    proof (cases "v = mutVert s")
      case True
      from d(3) [of "mutVert s" n] fr True sn show ?thesis by simp
    next
      case False
      with that fr have "v \<notin> fst ` set (frames s)" by auto
      with d(4) [of v] that sn show ?thesis by simp
    qed
    show "seen s' \<subseteq> reachable n start" using d(5) sn by simp
    show "set (acc s') = seen s'" using d(6) sn ac by simp
    show "distinct (acc s')" using d(7) ac by simp
  qed
  moreover have "dfs_potential n s' < dfs_potential n s"
    using fr by (simp add: dfs_potential_def)
  ultimately show ?thesis using sn by (simp add: dfs_less_def dfs_unseen_def)
qed

lemma step_advance:
  assumes inv: "dfs_inv n start s"
    and t: "toExpand s \<noteq> n"
    and edge: "0 \<le> crystal_f (toExpand s) (mutVert s) \<Longrightarrow>
       (mutVert s)[nat (crystal_f (toExpand s) (mutVert s)) := toExpand s + 1] \<in> seen s"
    and s': "s' = s\<lparr>toExpand := toExpand s + 1\<rparr>"
  shows "dfs_inv n start s' \<and> dfs_less n start s' s"
proof -
  note d = dfs_invD [OF inv]
  define rest where "rest = ancestors (mutVert s) (mutStack s) (expStack s)"
  have fr: "frames s = (mutVert s, toExpand s) # rest"
    and fr': "frames s' = (mutVert s, toExpand s + 1) # rest"
    using s' by (simp_all add: frames_def rest_def)
  have sn: "seen s' = seen s" and ac: "acc s' = acc s" using s' by simp_all
  from d(3) [of "mutVert s" "toExpand s"] fr
  have hd: "1 \<le> toExpand s" "toExpand s \<le> n" "mutVert s \<in> seen s"
    "edges_closed n (seen s) (mutVert s) (toExpand s)" by simp_all
  have "dfs_inv n start s'"
  proof (rule dfs_invI)
    show "length (mutStack s') = length (expStack s')" using d(1) s' by simp
    show "fst (last (frames s')) = start" using d(2) fr fr' by (cases rest) simp_all
    show "1 \<le> r \<and> r \<le> n \<and> v \<in> seen s' \<and> edges_closed n (seen s') v r"
      if "(v, r) \<in> set (frames s')" for v r
    proof (cases "(v, r) \<in> set rest")
      case True
      with d(3) [of v r] fr sn show ?thesis by simp
    next
      case False
      with that fr' have "v = mutVert s" "r = toExpand s + 1" by simp_all
      moreover have "edges_closed n (seen s) (mutVert s) (toExpand s + 1)"
        using hd(4) edge by (rule edges_closed_next)
      ultimately show ?thesis using hd t sn by simp
    qed
    show "edges_closed n (seen s') v n" if "v \<in> seen s'" "v \<notin> fst ` set (frames s')" for v
    proof -
      from that fr fr' have "v \<notin> fst ` set (frames s)" by simp
      with d(4) [of v] that sn show ?thesis by simp
    qed
    show "seen s' \<subseteq> reachable n start" using d(5) sn by simp
    show "set (acc s') = seen s'" using d(6) sn ac by simp
    show "distinct (acc s')" using d(7) ac by simp
  qed
  moreover have "dfs_potential n s' < dfs_potential n s"
    using fr fr' hd t by (simp add: dfs_potential_def)
  ultimately show ?thesis using sn by (simp add: dfs_less_def dfs_unseen_def)
qed

lemma step_fresh:
  fixes s :: "vertex list dfs"
  assumes inv: "dfs_inv n start s"
    and t: "toExpand s \<noteq> n"
    and ge: "0 \<le> crystal_f (toExpand s) (mutVert s)"
    and w: "w = (mutVert s)[nat (crystal_f (toExpand s) (mutVert s)) := toExpand s + 1]"
    and fresh: "w \<notin> seen s"
    and s': "s' = s\<lparr>mutVert := w, seen := insert w (seen s), acc := acc s @ [w],
              mutStack := nat (crystal_f (toExpand s) (mutVert s)) # mutStack s,
              expStack := (toExpand s + 1) # expStack s,
              toExpand := 1\<rparr>"
  shows "dfs_inv n start s' \<and> dfs_less n start s' s"
proof -
  note d = dfs_invD [OF inv]
  define rest where "rest = ancestors (mutVert s) (mutStack s) (expStack s)"
  have undo: "w[nat (crystal_f (toExpand s) (mutVert s)) := w ! nat (crystal_f (toExpand s) (mutVert s)) - 1] = mutVert s"
    unfolding w by (rule edge_write(2) [OF ge])
  have fr: "frames s = (mutVert s, toExpand s) # rest"
    by (simp add: frames_def rest_def)
  have fr': "frames s' = (w, 1) # (mutVert s, toExpand s + 1) # rest"
    using s' undo by (simp add: frames_def rest_def)
  have sn: "seen s' = insert w (seen s)" and ac: "acc s' = acc s @ [w]" using s' by simp_all
  from d(3) [of "mutVert s" "toExpand s"] fr
  have hd: "1 \<le> toExpand s" "toExpand s \<le> n" "mutVert s \<in> seen s"
    "edges_closed n (seen s) (mutVert s) (toExpand s)" by simp_all
  have sub: "seen s \<subseteq> seen s'" using sn by auto
  have wr: "w \<in> reachable n start"
  proof -
    from hd(3) d(5) have "mutVert s \<in> reachable n start" by blast
    from reachable.edge [OF this hd(1) _ ge] hd(2) t show ?thesis unfolding w by simp
  qed
  have "dfs_inv n start s'"
  proof (rule dfs_invI)
    show "length (mutStack s') = length (expStack s')" using d(1) s' by simp
    show "fst (last (frames s')) = start" using d(2) fr fr' by (cases rest) simp_all
    show "1 \<le> r \<and> r \<le> n \<and> v \<in> seen s' \<and> edges_closed n (seen s') v r"
      if "(v, r) \<in> set (frames s')" for v r
    proof -
      from that fr' consider "v = w" "r = 1" | "v = mutVert s" "r = toExpand s + 1"
        | "(v, r) \<in> set rest" by auto
      then show ?thesis
      proof cases
        case 1
        with hd t sn edges_closed_one [of n "seen s'" w] show ?thesis by simp
      next
        case 2
        have "edges_closed n (seen s') (mutVert s) (toExpand s)"
          using hd(4) sub by (rule edges_closed_mono)
        then have "edges_closed n (seen s') (mutVert s) (toExpand s + 1)"
          by (rule edges_closed_next) (simp add: sn w)
        with 2 hd t sn show ?thesis by simp
      next
        case 3
        with d(3) [of v r] fr have "1 \<le> r \<and> r \<le> n \<and> v \<in> seen s \<and> edges_closed n (seen s) v r"
          by simp
        with sub edges_closed_mono [OF _ sub] show ?thesis by blast
      qed
    qed
    show "edges_closed n (seen s') v n" if "v \<in> seen s'" "v \<notin> fst ` set (frames s')" for v
    proof -
      from that fr fr' have nf: "v \<notin> fst ` set (frames s)" and "v \<noteq> w" by auto
      with that sn have "v \<in> seen s" by simp
      from d(4) [OF this nf] sub show ?thesis by (rule edges_closed_mono)
    qed
    show "seen s' \<subseteq> reachable n start" using d(5) sn wr by simp
    show "set (acc s') = seen s'" using d(6) sn ac by simp
    show "distinct (acc s')" using d(6,7) ac fresh by simp
  qed
  moreover have "dfs_unseen n start s' < dfs_unseen n start s"
  proof -
    have "reachable n start - seen s' \<subset> reachable n start - seen s"
      using sn wr fresh by auto
    moreover have "finite (reachable n start - seen s)" using finite_reachable by simp
    ultimately show ?thesis unfolding dfs_unseen_def by (rule psubset_card_mono [rotated])
  qed
  ultimately show ?thesis by (simp add: dfs_less_def)
qed

lemma step_inv:
  fixes s :: "vertex list dfs"
  assumes inv: "dfs_inv n start s" and step: "visitStep n (\<lambda>v crystal. crystal @ [v]) s = Some s'"
  shows "dfs_inv n start s' \<and> dfs_less n start s' s"
  using step
proof (cases rule: visitStep_cases)
  case (Backtrack idx ms e es)
  with inv show ?thesis by (rule step_backtrack)
next
  case (Stuck idx ms)
  with dfs_invD(1) [OF inv] show ?thesis by simp
next
  case NoEdge
  with inv show ?thesis by (intro step_advance [where s = s]) simp_all
next
  case Seen
  with inv show ?thesis by (intro step_advance [where s = s]) simp_all
next
  case Fresh
  with inv show ?thesis by (intro step_fresh [where s = s]) simp_all
qed

lemma visitIter_stop:
  "visitStep n visit (visitIter k n visit s) = None \<Longrightarrow> visitIter (k + j) n visit s = visitIter k n visit s"
proof (induction k arbitrary: s)
  case 0
  then show ?case by (cases j) simp_all
next
  case (Suc k)
  then show ?case by (cases "visitStep n visit s") simp_all
qed

lemma visitLoop_iter:
  "visitStep n visit (visitIter k n visit s) = None \<Longrightarrow> visitLoop n visit s = Some (visitIter k n visit s)"
proof (induction k arbitrary: s)
  case 0
  then show ?case by (subst visitLoop.simps) simp
next
  case (Suc k)
  show ?case
  proof (cases "visitStep n visit s")
    case None
    then show ?thesis by (subst visitLoop.simps) simp
  next
    case (Some s')
    with Suc.prems have "visitStep n visit (visitIter k n visit s') = None" by simp
    from Suc.IH [OF this] Some show ?thesis by (subst visitLoop.simps) simp
  qed
qed

lemma visitLoop_Some:
  assumes "visitLoop n visit s = Some y"
  shows "\<exists>k. visitStep n visit (visitIter k n visit s) = None \<and> visitIter k n visit s = y"
proof -
  let ?P = "\<lambda>n visit s y. \<exists>k. visitStep n visit (visitIter k n visit s) = None \<and> visitIter k n visit s = y"
  have step: "?P n visit s y"
    if IH: "\<And>n visit s y. loop n visit s = Some y \<Longrightarrow> ?P n visit s y"
      and eq: "(case visitStep n visit s of None \<Rightarrow> Some s | Some s' \<Rightarrow> loop n visit s') = Some y"
    for loop n visit and s y :: "'a dfs"
  proof (cases "visitStep n visit s")
    case None
    with eq have "y = s" by simp
    with None have "visitStep n visit (visitIter 0 n visit s) = None \<and> visitIter 0 n visit s = y"
      by simp
    then show ?thesis by blast
  next
    case (Some s')
    with eq have "loop n visit s' = Some y" by simp
    from IH [OF this] obtain k where
      k: "visitStep n visit (visitIter k n visit s') = None" "visitIter k n visit s' = y" by blast
    from Some have "visitIter (Suc k) n visit s = visitIter k n visit s'" by simp
    with k have "visitStep n visit (visitIter (Suc k) n visit s) = None \<and> visitIter (Suc k) n visit s = y"
      by metis
    then show ?thesis by blast
  qed
  from assms show ?thesis
    by (rule visitLoop.raw_induct [where P = ?P, rotated]) (rule step)
qed

lemma visitLoop_None:
  "(\<forall>k. visitStep n visit (visitIter k n visit s) \<noteq> None) \<Longrightarrow> visitLoop n visit s = None"
proof (cases "visitLoop n visit s")
  case None
  then show ?thesis .
next
  case (Some y)
  assume all: "\<forall>k. visitStep n visit (visitIter k n visit s) \<noteq> None"
  from visitLoop_Some [OF Some] obtain k where "visitStep n visit (visitIter k n visit s) = None"
    by blast
  with all show ?thesis by blast
qed

text \<open>Entry to the loop, and the end of the loop.\<close>

lemma dfs_inv_init:
  assumes "1 \<le> n"
  shows "dfs_inv n start (visitInit (\<lambda>v crystal. crystal @ [v]) [] start)"
proof (rule dfs_invI)
  let ?s = "visitInit (\<lambda>v crystal. crystal @ [v]) [] start"
  have fr: "frames ?s = [(start, 1)]" by (simp add: frames_def visitInit_def)
  show "length (mutStack ?s) = length (expStack ?s)" by (simp add: visitInit_def)
  show "fst (last (frames ?s)) = start" using fr by simp
  show "1 \<le> r \<and> r \<le> n \<and> v \<in> seen ?s \<and> edges_closed n (seen ?s) v r"
    if "(v, r) \<in> set (frames ?s)" for v r
    using that fr assms edges_closed_one [of n "seen ?s" start] by (simp add: visitInit_def)
  show "edges_closed n (seen ?s) v n" if "v \<in> seen ?s" "v \<notin> fst ` set (frames ?s)" for v
    using that fr by (simp add: visitInit_def)
  show "seen ?s \<subseteq> reachable n start" by (simp add: visitInit_def reachable.start)
  show "set (acc ?s) = seen ?s" by (simp add: visitInit_def)
  show "distinct (acc ?s)" by (simp add: visitInit_def)
qed

lemma dfs_inv_iter:
  fixes s :: "vertex list dfs"
  shows "dfs_inv n start s \<Longrightarrow> dfs_inv n start (visitIter k n (\<lambda>v crystal. crystal @ [v]) s)"
proof (induction k arbitrary: s)
  case 0
  then show ?case by simp
next
  case (Suc k)
  show ?case
  proof (cases "visitStep n (\<lambda>v crystal. crystal @ [v]) s")
    case None
    with Suc.prems show ?thesis by simp
  next
    case (Some s')
    from step_inv [OF Suc.prems Some] have "dfs_inv n start s'" by simp
    from Suc.IH [OF this] Some show ?thesis by simp
  qed
qed

lemma dfs_terminates:
  fixes s :: "vertex list dfs"
  assumes "dfs_inv n start s"
  shows "\<exists>k. visitStep n (\<lambda>v crystal. crystal @ [v]) (visitIter k n (\<lambda>v crystal. crystal @ [v]) s) = None"
proof -
  have "wf (inv_image (less_than <*lex*> less_than)
          (\<lambda>s :: vertex list dfs. (dfs_unseen n start s, dfs_potential n s)))"
    by (intro wf_inv_image wf_lex_prod wf_less_than)
  then show ?thesis using assms
  proof (induction s rule: wf_induct_rule)
  case (less s)
  show ?case
  proof (cases "visitStep n (\<lambda>v crystal. crystal @ [v]) s")
    case None
    then have "visitStep n (\<lambda>v crystal. crystal @ [v]) (visitIter 0 n (\<lambda>v crystal. crystal @ [v]) s) = None"
      by simp
    then show ?thesis by blast
  next
    case (Some s')
    from step_inv [OF less.prems Some] have inv': "dfs_inv n start s'"
      and lt: "dfs_less n start s' s" by simp_all
    from lt have "(s', s) \<in> inv_image (less_than <*lex*> less_than)
          (\<lambda>s :: vertex list dfs. (dfs_unseen n start s, dfs_potential n s))"
      by (auto simp: dfs_less_def)
    from less.IH [OF this inv'] obtain k where
      "visitStep n (\<lambda>v crystal. crystal @ [v]) (visitIter k n (\<lambda>v crystal. crystal @ [v]) s') = None"
      by blast
    with Some have "visitStep n (\<lambda>v crystal. crystal @ [v]) (visitIter (Suc k) n (\<lambda>v crystal. crystal @ [v]) s) = None"
      by simp
    then show ?thesis by blast
  qed
  qed
qed

lemma dfs_final_complete:
  fixes s :: "vertex list dfs"
  assumes inv: "dfs_inv n start s" and fin: "visitStep n visit s = None"
  shows "set (acc s) = reachable n start"
proof -
  note d = dfs_invD [OF inv]
  from fin have t: "toExpand s = n" and ms: "mutStack s = []" by (simp_all add: visitStep_None)
  then have fr: "frames s = [(mutVert s, n)]" by (simp add: frames_def)
  with d(2) have mv: "mutVert s = start" by simp
  have closed: "edges_closed n (seen s) v n" if "v \<in> seen s" for v
  proof (cases "v = start")
    case True
    with d(3) [of start n] fr mv show ?thesis by simp
  next
    case False
    with d(4) [OF that] fr mv show ?thesis by simp
  qed
  have "v \<in> seen s" if "v \<in> reachable n start" for v
    using that
  proof (induction rule: reachable.induct)
    case start
    from d(3) [of start n] fr mv show ?case by simp
  next
    case (edge v i)
    from closed [OF edge.IH] edge.hyps show ?case by (simp add: edges_closed_def)
  qed
  with d(5,6) show ?thesis by blast
qed

text \<open>Letters of a lattice word, and the height.\<close>

lemma latticeWord_letters:
  "latticeWordToMaybePartition q word = Some p \<Longrightarrow> \<forall>x\<in>set word. 1 \<le> x"
proof (induction word arbitrary: q)
  case Nil
  then show ?case by simp
next
  case (Cons num word)
  have "1 \<le> num"
  proof (rule ccontr)
    assume "\<not> 1 \<le> num"
    then have "num - 1 \<noteq> int (length q)" "num \<noteq> 1" "js_get q (num - 2) = None"
      by (simp_all add: js_get_def)
    with Cons.prems show False by (simp add: js_gt_def split: if_splits)
  qed
  moreover from Cons.prems obtain q' where "latticeWordToMaybePartition q' word = Some p"
    by (auto split: if_splits)
  from Cons.IH [OF this] have "\<forall>x\<in>set word. 1 \<le> x" .
  ultimately show ?case by simp
qed

lemma foldl_max_ge: "a \<le> foldl (\<lambda>mx x. max mx x) a (xs :: int list)"
proof (induction xs arbitrary: a)
  case Nil
  then show ?case by simp
next
  case (Cons x xs)
  have "a \<le> max a x" by simp
  also have "\<dots> \<le> foldl (\<lambda>mx x. max mx x) (max a x) xs" by (rule Cons.IH)
  finally show ?case by simp
qed

lemma foldl_max_mem: "x \<in> set xs \<Longrightarrow> x \<le> foldl (\<lambda>mx x. max mx x) a (xs :: int list)"
proof (induction xs arbitrary: a)
  case Nil
  then show ?case by simp
next
  case (Cons y ys)
  show ?case
  proof (cases "x = y")
    case True
    have "x \<le> max a y" using True by simp
    also have "\<dots> \<le> foldl (\<lambda>mx x. max mx x) (max a y) ys" by (rule foldl_max_ge)
    finally show ?thesis by simp
  next
    case False
    with Cons.prems have "x \<in> set ys" by simp
    from Cons.IH [OF this] show ?thesis by simp
  qed
qed

lemma vertexHeight_letters: "x \<in> set v \<Longrightarrow> x \<le> vertexHeight v"
  unfolding vertexHeight_def by (rule foldl_max_mem)

lemma start_letters:
  assumes "isLatticeWord start" and "vertexHeight start \<le> n"
  shows "\<forall>x\<in>set start. 1 \<le> x \<and> x \<le> n"
proof
  fix x assume x: "x \<in> set start"
  from assms(1) obtain p where "latticeWordToMaybePartition [] start = Some p"
    by (auto simp: isLatticeWord_def)
  from latticeWord_letters [OF this] x have "1 \<le> x" by blast
  moreover from vertexHeight_letters [OF x] assms(2) have "x \<le> n" by simp
  ultimately show "1 \<le> x \<and> x \<le> n" ..
qed

lemma start_empty:
  assumes "isLatticeWord start" and "vertexHeight start \<le> n" and "\<not> 1 \<le> n"
  shows "start = []"
proof (cases start)
  case Nil
  then show ?thesis .
next
  case (Cons x xs)
  with start_letters [OF assms(1,2)] have "1 \<le> x \<and> x \<le> n" by simp
  with assms(3) show ?thesis by simp
qed

text \<open>The traversal of the empty vertex when there is no operator index to stop at.\<close>

lemma crystal_f_empty: "crystal_f i [] = -1"
  by (simp add: crystal_f_def)

lemma spinning_step:
  assumes "spinning n s"
  shows "visitStep n visit s = Some (s\<lparr>toExpand := toExpand s + 1\<rparr>)"
  using assms by (simp add: spinning_def visitStep_def crystal_f_empty)

lemma spinning_iter:
  "spinning n s \<Longrightarrow> spinning n (visitIter k n (\<lambda>v crystal. crystal @ [v]) s)"
proof (induction k arbitrary: s)
  case 0
  then show ?case by simp
next
  case (Suc k)
  from Suc.prems have "spinning n (s\<lparr>toExpand := toExpand s + 1\<rparr>)"
    by (simp add: spinning_def)
  from Suc.IH [OF this] spinning_step [OF Suc.prems] show ?case by simp
qed

lemma spinning_init:
  "\<not> 1 \<le> n \<Longrightarrow> spinning n (visitInit (\<lambda>v crystal. crystal @ [v]) [] [])"
  by (simp add: spinning_def visitInit_def)

lemma reachable_empty: "reachable n [] = {[]}"
proof -
  have "v = []" if "v \<in> reachable n []" for v
    using reachable_shape [OF that] by simp
  with reachable.start [of "[]" n] show ?thesis by blast
qed

lemma spinning_diverges:
  assumes "spinning n s"
  shows "visitLoop n (\<lambda>v crystal. crystal @ [v]) s = None"
proof (rule visitLoop_None, rule allI)
  fix k
  have "spinning n (visitIter k n (\<lambda>v crystal. crystal @ [v]) s)"
    using assms by (rule spinning_iter)
  from spinning_step [OF this] show "visitStep n (\<lambda>v crystal. crystal @ [v]) (visitIter k n (\<lambda>v crystal. crystal @ [v]) s) \<noteq> None"
    by simp
qed

text \<open>Any visitor is called on the same vertices in the same order.\<close>

lemma replay_step:
  "visitStep n visit (replay visit a s) =
     map_option (replay visit a) (visitStep n (\<lambda>v crystal. crystal @ [v]) s)"
  by (simp add: visitStep_def replay_def Let_def split: list.splits)

lemma replay_iter:
  "visitIter k n visit (replay visit a s) =
     replay visit a (visitIter k n (\<lambda>v crystal. crystal @ [v]) s)"
proof (induction k arbitrary: s)
  case 0
  then show ?case by simp
next
  case (Suc k)
  then show ?case
    by (cases "visitStep n (\<lambda>v crystal. crystal @ [v]) s") (simp_all add: replay_step)
qed

lemma replay_init: "visitInit visit a start = replay visit a (visitInit (\<lambda>v crystal. crystal @ [v]) [] start)"
  by (simp add: visitInit_def replay_def)

lemma replay_loop:
  "visitLoop n visit (replay visit a s) =
     map_option (replay visit a) (visitLoop n (\<lambda>v crystal. crystal @ [v]) s)"
proof (cases "\<exists>k. visitStep n (\<lambda>v crystal. crystal @ [v]) (visitIter k n (\<lambda>v crystal. crystal @ [v]) s) = None")
  case True
  then obtain k where k: "visitStep n (\<lambda>v crystal. crystal @ [v]) (visitIter k n (\<lambda>v crystal. crystal @ [v]) s) = None"
    by blast
  then have "visitStep n visit (visitIter k n visit (replay visit a s)) = None"
    by (simp add: replay_iter replay_step)
  from visitLoop_iter [OF this] visitLoop_iter [OF k] show ?thesis
    by (simp add: replay_iter)
next
  case False
  then have "\<forall>k. visitStep n visit (visitIter k n visit (replay visit a s)) \<noteq> None"
    by (simp add: replay_iter replay_step)
  from visitLoop_None [OF this] False visitLoop_None [of n "\<lambda>v crystal. crystal @ [v]" s]
  show ?thesis by simp
qed

lemma visitGLnCrystal_replay:
  "visitGLnCrystal n start visit a =
     map_option (map_sum id (\<lambda>crystal. fold visit crystal a)) (expandInGL n start)"
proof -
  have "visitLoop n visit (visitInit visit a start) =
      map_option (replay visit a)
        (visitLoop n (\<lambda>v crystal. crystal @ [v]) (visitInit (\<lambda>v crystal. crystal @ [v]) [] start))"
    by (subst replay_init [of visit a start]) (rule replay_loop)
  moreover have "acc (replay visit a s) = fold visit (acc s) a" for s
    by (simp add: replay_def)
  ultimately show ?thesis
    by (simp add: visitGLnCrystal_def expandInGL_def option.map_comp comp_def)
qed

lemma visitorCalls_sound:
  assumes "isLatticeWord start" and "vertexHeight start \<le> n"
  shows "distinct (visitorCalls n start k) \<and> set (visitorCalls n start k) \<subseteq> reachable n start"
proof (cases "1 \<le> n")
  case True
  have "dfs_inv n start (visitIter k n (\<lambda>v crystal. crystal @ [v])
      (visitInit (\<lambda>v crystal. crystal @ [v]) [] start))"
    by (rule dfs_inv_iter [OF dfs_inv_init [OF True]])
  from dfs_invD(5,6,7) [OF this] show ?thesis by (simp add: visitorCalls_def)
next
  case False
  from start_empty [OF assms False] have e: "start = []" .
  have "spinning n (visitIter k n (\<lambda>v crystal. crystal @ [v])
      (visitInit (\<lambda>v crystal. crystal @ [v]) [] []))"
    by (rule spinning_iter [OF spinning_init [OF False]])
  then show ?thesis using e by (simp add: visitorCalls_def spinning_def reachable_empty)
qed

lemma visitorCalls_complete:
  assumes "isLatticeWord start" and "vertexHeight start \<le> n"
  shows "\<exists>k. \<forall>k'\<ge>k. set (visitorCalls n start k') = reachable n start"
proof (cases "1 \<le> n")
  case True
  let ?rec = "\<lambda>(v :: vertex) crystal. crystal @ [v]"
  let ?s = "visitInit ?rec [] start"
  have inv: "dfs_inv n start ?s" by (rule dfs_inv_init [OF True])
  from dfs_terminates [OF inv] obtain k where k: "visitStep n ?rec (visitIter k n ?rec ?s) = None"
    by blast
  have "dfs_inv n start (visitIter k n ?rec ?s)" by (rule dfs_inv_iter [OF inv])
  from dfs_final_complete [OF this k] have c: "set (acc (visitIter k n ?rec ?s)) = reachable n start" .
  have "set (visitorCalls n start k') = reachable n start" if "k \<le> k'" for k'
  proof -
    from that obtain j where "k' = k + j" using le_Suc_ex by blast
    with visitIter_stop [OF k, of j] c show ?thesis by (simp add: visitorCalls_def)
  qed
  then show ?thesis by blast
next
  case False
  from start_empty [OF assms False] have e: "start = []" .
  have "set (visitorCalls n start k) = reachable n start" for k
  proof -
    have "spinning n (visitIter k n (\<lambda>v crystal. crystal @ [v])
        (visitInit (\<lambda>v crystal. crystal @ [v]) [] []))"
      by (rule spinning_iter [OF spinning_init [OF False]])
    then show ?thesis using e by (simp add: visitorCalls_def spinning_def reachable_empty)
  qed
  then show ?thesis by blast
qed

lemma expandInGL_result:
  assumes "expandInGL n start = Some (Inr crystal)"
  shows "isLatticeWord start \<and> vertexHeight start \<le> n \<and> (\<exists>k. crystal = visitorCalls n start k)"
proof -
  from assms have pre: "isLatticeWord start" "vertexHeight start \<le> n"
    by (auto simp: expandInGL_def visitGLnCrystal_def split: if_splits)
  with assms obtain s where "visitLoop n (\<lambda>v crystal. crystal @ [v])
      (visitInit (\<lambda>v crystal. crystal @ [v]) [] start) = Some s" and "crystal = acc s"
    by (auto simp: expandInGL_def visitGLnCrystal_def)
  with visitLoop_Some [OF this(1)] have "\<exists>k. crystal = visitorCalls n start k"
    by (auto simp: visitorCalls_def)
  with pre show ?thesis by simp
qed

lemma expandInGL_correct:
  assumes "isLatticeWord start" and "vertexHeight start \<le> n" and "1 \<le> n"
  shows "\<exists>crystal. expandInGL n start = Some (Inr crystal) \<and> distinct crystal \<and>
           set crystal = reachable n start"
proof -
  let ?rec = "\<lambda>(v :: vertex) crystal. crystal @ [v]"
  let ?s = "visitInit ?rec [] start"
  have inv: "dfs_inv n start ?s" by (rule dfs_inv_init [OF assms(3)])
  from dfs_terminates [OF inv] obtain k where k: "visitStep n ?rec (visitIter k n ?rec ?s) = None"
    by blast
  have invk: "dfs_inv n start (visitIter k n ?rec ?s)" by (rule dfs_inv_iter [OF inv])
  from visitLoop_iter [OF k] assms(1,2)
  have "expandInGL n start = Some (Inr (acc (visitIter k n ?rec ?s)))"
    by (simp add: expandInGL_def visitGLnCrystal_def)
  moreover from dfs_invD(7) [OF invk] have "distinct (acc (visitIter k n ?rec ?s))" .
  moreover from dfs_final_complete [OF invk k]
  have "set (acc (visitIter k n ?rec ?s)) = reachable n start" .
  ultimately show ?thesis by blast
qed

text \<open>
  C1. Let \<open>start\<close> be a lattice word of height at most \<open>n\<close>. At every moment of the
  traversal the vertices passed to the visitor so far are pairwise distinct and reachable
  from \<open>start\<close> by the edge operators \<open>f_1 .. f_{n-1}\<close>; from some iteration on they are
  all the reachable vertices. For \<open>1 \<le> n\<close> the traversal returns, and the list that
  \<open>expandInGL\<close> collects enumerates the reachable vertices without repetition. Any
  visitor is called on the vertices of that list, in its order.
\<close>

theorem visitGLnCrystal_visits_reachable_once:
  assumes "isLatticeWord start" and "vertexHeight start \<le> n"
  shows "(\<forall>k. distinct (visitorCalls n start k) \<and> set (visitorCalls n start k) \<subseteq> reachable n start)
    \<and> (\<exists>k. \<forall>k'\<ge>k. set (visitorCalls n start k') = reachable n start)
    \<and> (1 \<le> n \<longrightarrow> (\<exists>crystal. expandInGL n start = Some (Inr crystal) \<and> distinct crystal \<and>
           set crystal = reachable n start))
    \<and> (\<forall>visit a. visitGLnCrystal n start visit a =
           map_option (map_sum id (\<lambda>crystal. fold visit crystal (a :: 'a))) (expandInGL n start))"
  using visitorCalls_sound [OF assms] visitorCalls_complete [OF assms]
    expandInGL_correct [OF assms] visitGLnCrystal_replay [of n start]
  by blast

theorem visitGLnCrystal_visits_reachable_once_witness:
  "isLatticeWord [1, 1] \<and> vertexHeight [1, 1] \<le> 3
   \<and> expandInGL 3 [1, 1] = Some (Inr [[1, 1], [2, 1], [2, 2], [3, 2], [3, 3], [3, 1]])
   \<and> reachable 3 [1, 1] = {[1, 1], [2, 1], [2, 2], [3, 2], [3, 3], [3, 1]}"
proof -
  have h1: "isLatticeWord [1, 1]" by code_simp
  have h2: "vertexHeight [1, 1] \<le> 3" by code_simp
  have e: "expandInGL 3 [1, 1] = Some (Inr [[1, 1], [2, 1], [2, 2], [3, 2], [3, 3], [3, 1]])"
    by code_simp
  from visitGLnCrystal_visits_reachable_once [OF h1 h2] e
  have "set [[1, 1], [2, 1], [2, 2], [3, 2], [3, 3], [3, 1]] = reachable 3 [1, 1]" by auto
  with h1 h2 e show ?thesis by simp
qed

text \<open>
  C8, as stated, fails at \<open>n = 0\<close>: the assertions hold for the empty vertex, and the
  loop never reaches \<open>toExpand = n\<close>, so the call does not return.
\<close>

theorem empty_vertex_GL0_diverges: "expandInGL 0 [] = None"
proof -
  have "visitLoop 0 (\<lambda>v crystal. crystal @ [v]) (visitInit (\<lambda>v crystal. crystal @ [v]) [] []) = None"
    by (rule spinning_diverges [OF spinning_init]) simp
  then show ?thesis
    by (simp add: expandInGL_def visitGLnCrystal_def isLatticeWord_def vertexHeight_def)
qed

text \<open>
  C8, amended. For every \<open>n \<ge> 1\<close> the traversal started on the empty vertex returns, and
  the visitor has been called exactly once, on the empty vertex.
\<close>

theorem empty_vertex_visited_once:
  assumes "1 \<le> n"
  shows "expandInGL n [] = Some (Inr [[]]) \<and>
         (\<forall>visit a. visitGLnCrystal n [] visit a = Some (Inr (visit [] (a :: 'a))))"
proof -
  have h1: "isLatticeWord []" by (simp add: isLatticeWord_def)
  have h2: "vertexHeight [] \<le> n" using assms by (simp add: vertexHeight_def)
  from expandInGL_correct [OF h1 h2 assms] obtain crystal where
    c: "expandInGL n [] = Some (Inr crystal)" "distinct crystal" "set crystal = {[]}"
    by (auto simp: reachable_empty)
  have "crystal = [[]]"
  proof (cases crystal)
    case Nil
    with c(3) show ?thesis by simp
  next
    case (Cons x xs)
    with c(2,3) have "x = []" "set xs \<subseteq> {[]}" "x \<notin> set xs" by auto
    then have "xs = []" by (cases xs) auto
    with Cons \<open>x = []\<close> show ?thesis by simp
  qed
  with c(1) show ?thesis by (simp add: visitGLnCrystal_replay)
qed

theorem empty_vertex_visited_once_witness:
  "(1::int) \<le> 2 \<and> expandInGL 2 [] = Some (Inr [[]])"
  using empty_vertex_visited_once [where ?'a = unit, of 2] by simp

text \<open>
  C10. Let \<open>start\<close> be a lattice word of height at most \<open>n\<close>. Every vertex passed to
  the visitor, at any moment of the traversal, has the length of \<open>start\<close> and letters
  in the range from \<open>1\<close> to \<open>n\<close>; so has every vertex of a list returned by \<open>expandInGL\<close>.
\<close>

theorem visited_vertices_shape:
  assumes "isLatticeWord start" and "vertexHeight start \<le> n"
  shows "(\<forall>k. \<forall>v\<in>set (visitorCalls n start k).
            length v = length start \<and> (\<forall>x\<in>set v. 1 \<le> x \<and> x \<le> n))
       \<and> (\<forall>crystal. expandInGL n start = Some (Inr crystal) \<longrightarrow>
            (\<forall>v\<in>set crystal. length v = length start \<and> (\<forall>x\<in>set v. 1 \<le> x \<and> x \<le> n)))"
proof -
  have shape: "length v = length start \<and> (\<forall>x\<in>set v. 1 \<le> x \<and> x \<le> n)"
    if "v \<in> set (visitorCalls n start k)" for v k
  proof -
    from visitorCalls_sound [OF assms, of k] that have "v \<in> reachable n start" by blast
    from reachable_shape [OF this] start_letters [OF assms] show ?thesis by fastforce
  qed
  moreover have "\<forall>v\<in>set crystal. length v = length start \<and> (\<forall>x\<in>set v. 1 \<le> x \<and> x \<le> n)"
    if "expandInGL n start = Some (Inr crystal)" for crystal
  proof -
    from expandInGL_result [OF that] obtain k where "crystal = visitorCalls n start k" by blast
    with shape show ?thesis by blast
  qed
  ultimately show ?thesis by blast
qed

theorem visited_vertices_shape_witness:
  "isLatticeWord [1, 2] \<and> vertexHeight [1, 2] \<le> 3
   \<and> expandInGL 3 [1, 2] = Some (Inr [[1, 2], [1, 3], [2, 3]])
   \<and> list_all (\<lambda>v. length v = length [1, 2 :: int] \<and> list_all (\<lambda>x. 1 \<le> x \<and> x \<le> 3) v)
        [[1, 2], [1, 3], [2, 3 :: int]]"
proof -
  have h1: "isLatticeWord [1, 2]" by code_simp
  have h2: "vertexHeight [1, 2] \<le> 3" by code_simp
  have e: "expandInGL 3 [1, 2] = Some (Inr [[1, 2], [1, 3], [2, 3]])" by code_simp
  from visited_vertices_shape [OF h1 h2] e
  have "\<forall>v\<in>set [[1, 2], [1, 3], [2, 3 :: int]].
          length v = length [1, 2 :: int] \<and> (\<forall>x\<in>set v. 1 \<le> x \<and> x \<le> 3)"
    by blast
  then have "list_all (\<lambda>v. length v = length [1, 2 :: int] \<and> list_all (\<lambda>x. 1 \<le> x \<and> x \<le> 3) v)
        [[1, 2], [1, 3], [2, 3 :: int]]"
    unfolding list_all_iff .
  with h1 h2 e show ?thesis by blast
qed

section \<open>The recognizer against the definition of a lattice word\<close>

lemma heightSpec_nonneg: "0 \<le> heightSpec u"
  by (simp add: heightSpec_def)

lemma heightSpec_ge: "x \<in> set u \<Longrightarrow> x \<le> heightSpec u"
  by (simp add: heightSpec_def)

lemma heightSpec_mem: "1 \<le> heightSpec u \<Longrightarrow> heightSpec u \<in> set u"
proof -
  assume h: "1 \<le> heightSpec u"
  have "Max (insert 0 (set u)) \<in> insert 0 (set u)" by (rule Max_in) simp_all
  with h show ?thesis by (auto simp: heightSpec_def)
qed

lemma heightSpec_snoc: "heightSpec (u @ [num]) = max (heightSpec u) num"
proof -
  have "Max (insert num (insert 0 (set u))) = max num (Max (insert 0 (set u)))"
    by (rule Max_insert) simp_all
  then show ?thesis by (simp add: heightSpec_def insert_commute max.commute)
qed

lemma count_snoc: "count_list (u @ [num]) i = count_list u i + (if i = num then 1 else 0)"
  by (induction u) auto

lemma count_zero: "i \<notin> set u \<Longrightarrow> count_list u i = 0"
  by (induction u) auto

lemma count_pos: "i \<in> set u \<Longrightarrow> 1 \<le> count_list u i"
  by (induction u) auto

lemma lattice_down:
  assumes "latticeCondition u" and "x \<in> set u" and "1 \<le> i" and "i \<le> x"
  shows "i \<in> set u"
  using assms(2,4)
proof (induction "nat (x - i)" arbitrary: x)
  case 0
  then have "x = i" by simp
  with 0 show ?case by simp
next
  case (Suc d)
  then have x2: "2 \<le> x" using assms(3) by linarith
  with assms(1) Suc.prems(1) have "count_list u x \<le> count_list u (x - 1)"
    by (simp add: latticeCondition_def)
  with count_pos [OF Suc.prems(1)] have pos: "1 \<le> count_list u (x - 1)" by linarith
  have mem: "x - 1 \<in> set u"
  proof (rule ccontr)
    assume "x - 1 \<notin> set u"
    from count_zero [OF this] pos show False by simp
  qed
  from Suc.hyps(2) have "d = nat (x - 1 - i)" by linarith
  moreover from Suc.hyps(2) have "i \<le> x - 1" by linarith
  ultimately show ?case using Suc.hyps(1) mem by blast
qed

lemma lattice_letters:
  assumes "latticeCondition u" and "1 \<le> i" and "i \<le> heightSpec u"
  shows "i \<in> set u"
proof -
  from assms(2,3) have "1 \<le> heightSpec u" by simp
  from heightSpec_mem [OF this] have "heightSpec u \<in> set u" .
  with assms(1) show ?thesis using assms(2,3) by (rule lattice_down)
qed

lemma lattice_above: "heightSpec u < i \<Longrightarrow> count_list u i = 0"
  using heightSpec_ge [of i u] by (intro count_zero) auto

lemma lattice_snoc:
  assumes "latticeCondition u"
  shows "latticeCondition (u @ [num]) \<longleftrightarrow>
     1 \<le> num \<and> num \<le> heightSpec u + 1 \<and>
     (2 \<le> num \<longrightarrow> count_list u num + 1 \<le> count_list u (num - 1))"
proof
  assume g: "latticeCondition (u @ [num])"
  then have n1: "1 \<le> num" by (simp add: latticeCondition_def)
  have c: "count_list u num + 1 \<le> count_list u (num - 1)" if "2 \<le> num"
    using g that by (simp add: latticeCondition_def count_snoc)
  have "num \<le> heightSpec u + 1"
  proof (rule ccontr)
    assume "\<not> num \<le> heightSpec u + 1"
    then have "heightSpec u < num - 1" and "2 \<le> num" using heightSpec_nonneg [of u] by linarith+
    with c lattice_above [of u "num - 1"] show False by simp
  qed
  with n1 c show "1 \<le> num \<and> num \<le> heightSpec u + 1 \<and>
     (2 \<le> num \<longrightarrow> count_list u num + 1 \<le> count_list u (num - 1))" by blast
next
  assume r: "1 \<le> num \<and> num \<le> heightSpec u + 1 \<and>
     (2 \<le> num \<longrightarrow> count_list u num + 1 \<le> count_list u (num - 1))"
  show "latticeCondition (u @ [num])"
    unfolding latticeCondition_def
  proof (intro ballI conjI impI)
    fix x assume x: "x \<in> set (u @ [num])"
    with assms r show "1 \<le> x" by (auto simp: latticeCondition_def)
    assume x2: "2 \<le> x"
    show "count_list (u @ [num]) x \<le> count_list (u @ [num]) (x - 1)"
    proof (cases "x = num")
      case True
      with r x2 show ?thesis by (simp add: count_snoc)
    next
      case False
      with x have "x \<in> set u" by simp
      with assms x2 have "count_list u x \<le> count_list u (x - 1)"
        by (simp add: latticeCondition_def)
      with False show ?thesis by (simp add: count_snoc)
    qed
  qed
qed

lemma weightOf_length: "length (weightOf u) = nat (heightSpec u)"
  by (simp add: weightOf_def)

lemma weightOf_nth: "k < nat (heightSpec u) \<Longrightarrow> weightOf u ! k = int (count_list u (int k + 1))"
  by (simp add: weightOf_def)

lemma weightOf_get:
  "js_get (weightOf u) i =
     (if 0 \<le> i \<and> i < heightSpec u then Some (int (count_list u (i + 1))) else None)"
  using heightSpec_nonneg [of u] by (auto simp: js_get_def weightOf_length weightOf_nth)

lemma weightOf_snoc_new:
  assumes "num = heightSpec u + 1"
  shows "weightOf (u @ [num]) = weightOf u @ [1]"
proof (rule nth_equalityI)
  from assms heightSpec_nonneg [of u] have h: "heightSpec (u @ [num]) = heightSpec u + 1"
    by (simp add: heightSpec_snoc)
  with heightSpec_nonneg [of u] show "length (weightOf (u @ [num])) = length (weightOf u @ [1])"
    by (simp add: weightOf_length nat_add_distrib)
  fix k assume "k < length (weightOf (u @ [num]))"
  with h have k: "k < nat (heightSpec u + 1)" by (simp add: weightOf_length)
  show "weightOf (u @ [num]) ! k = (weightOf u @ [1]) ! k"
  proof (cases "k < nat (heightSpec u)")
    case True
    with assms have "int k + 1 \<noteq> num" by linarith
    with True k h show ?thesis
      by (simp add: weightOf_nth nth_append weightOf_length count_snoc)
  next
    case False
    with k heightSpec_nonneg [of u] have kk: "int k = heightSpec u" by linarith
    then have "count_list u (int k + 1) = 0" by (intro lattice_above) simp
    with False k h kk assms show ?thesis
      by (simp add: weightOf_nth nth_append weightOf_length count_snoc)
  qed
qed

lemma weightOf_snoc_old:
  assumes "1 \<le> num" and "num \<le> heightSpec u"
  shows "weightOf (u @ [num]) = (weightOf u)[nat (num - 1) := weightOf u ! nat (num - 1) + 1]"
proof (rule nth_equalityI)
  from assms have h: "heightSpec (u @ [num]) = heightSpec u"
    by (simp add: heightSpec_snoc)
  then show "length (weightOf (u @ [num])) =
      length ((weightOf u)[nat (num - 1) := weightOf u ! nat (num - 1) + 1])"
    by (simp add: weightOf_length)
  fix k assume "k < length (weightOf (u @ [num]))"
  with h have k: "k < nat (heightSpec u)" by (simp add: weightOf_length)
  show "weightOf (u @ [num]) ! k =
      (weightOf u)[nat (num - 1) := weightOf u ! nat (num - 1) + 1] ! k"
  proof (cases "k = nat (num - 1)")
    case True
    with assms have "int k + 1 = num" by linarith
    with True k h show ?thesis
      by (simp add: weightOf_nth weightOf_length count_snoc)
  next
    case False
    with assms have "int k + 1 \<noteq> num" by linarith
    with False k h show ?thesis
      by (simp add: weightOf_nth weightOf_length count_snoc)
  qed
qed

text \<open>One letter: the recognizer accepts it exactly when the longer word still has partition weight.\<close>

lemma recognizer_step:
  assumes "latticeCondition u"
  shows "latticeWordToMaybePartition (weightOf u) [num] =
     (if latticeCondition (u @ [num]) then Some (weightOf (u @ [num])) else None)"
proof -
  note snoc = lattice_snoc [OF assms, of num]
  note len = weightOf_length [of u]
  note h0 = heightSpec_nonneg [of u]
  consider (low) "num < 1" | (new) "num = heightSpec u + 1" | (one) "num = 1" "1 \<le> heightSpec u"
    | (high) "heightSpec u + 1 < num" | (mid) "2 \<le> num" "num \<le> heightSpec u"
    using h0 by linarith
  then show ?thesis
  proof cases
    case low
    with h0 have "js_get (weightOf u) (num - 2) = None" by (simp add: weightOf_get)
    with low h0 snoc show ?thesis by (simp add: len js_gt_def)
  next
    case new
    have "2 \<le> num \<longrightarrow> count_list u num + 1 \<le> count_list u (num - 1)"
    proof
      assume "2 \<le> num"
      with new have "1 \<le> heightSpec u" by simp
      from lattice_letters [OF assms this] have "heightSpec u \<in> set u" by simp
      from count_pos [OF this] new lattice_above [of u num] show "count_list u num + 1 \<le> count_list u (num - 1)"
        by simp
    qed
    with new h0 snoc have "latticeCondition (u @ [num])" by simp
    with new h0 weightOf_snoc_new [OF new] show ?thesis by (simp add: len)
  next
    case one
    with snoc have "latticeCondition (u @ [num])" by simp
    moreover from one have "num - 1 \<noteq> int (length (weightOf u))" by (simp add: len)
    ultimately show ?thesis using one weightOf_snoc_old [of num u] by simp
  next
    case high
    with snoc have "\<not> latticeCondition (u @ [num])" by simp
    with high h0 show ?thesis by (simp add: len)
  next
    case mid
    from mid h0 have g1: "js_get (weightOf u) (num - 2) = Some (int (count_list u (num - 1)))"
      and g2: "js_get (weightOf u) (num - 1) = Some (int (count_list u num))"
      by (simp_all add: weightOf_get)
    from mid h0 have br: "num - 1 \<noteq> int (length (weightOf u))" "num \<noteq> 1"
      "\<not> num - 1 > int (length (weightOf u))" by (simp_all add: len)
    show ?thesis
    proof (cases "count_list u num < count_list u (num - 1)")
      case True
      with mid snoc have "latticeCondition (u @ [num])" by simp
      with True br g1 g2 weightOf_snoc_old [of num u] mid show ?thesis
        by (simp add: js_gt_def)
    next
      case False
      with mid snoc have "\<not> latticeCondition (u @ [num])" by simp
      with False br g1 g2 show ?thesis by (simp add: js_gt_def)
    qed
  qed
qed

lemma recognizer_from:
  assumes "latticeCondition u"
  shows "latticeWordToMaybePartition (weightOf u) w =
     (if \<forall>k\<in>{1..length w}. latticeCondition (u @ take k w) then Some (weightOf (u @ w)) else None)"
  using assms
proof (induction w arbitrary: u)
  case Nil
  then show ?case by simp
next
  case (Cons num w)
  have split: "(\<forall>k\<in>{1..length (num # w)}. latticeCondition (u @ take k (num # w))) \<longleftrightarrow>
      latticeCondition (u @ [num]) \<and> (\<forall>k\<in>{1..length w}. latticeCondition ((u @ [num]) @ take k w))"
  proof
    assume a: "\<forall>k\<in>{1..length (num # w)}. latticeCondition (u @ take k (num # w))"
    then have "latticeCondition (u @ take 1 (num # w))" by force
    moreover have "latticeCondition ((u @ [num]) @ take k w)" if "k \<in> {1..length w}" for k
    proof -
      from that have "Suc k \<in> {1..length (num # w)}" by simp
      with a have "latticeCondition (u @ take (Suc k) (num # w))" by blast
      then show ?thesis by simp
    qed
    ultimately show "latticeCondition (u @ [num]) \<and>
        (\<forall>k\<in>{1..length w}. latticeCondition ((u @ [num]) @ take k w))" by simp
  next
    assume b: "latticeCondition (u @ [num]) \<and>
        (\<forall>k\<in>{1..length w}. latticeCondition ((u @ [num]) @ take k w))"
    show "\<forall>k\<in>{1..length (num # w)}. latticeCondition (u @ take k (num # w))"
    proof
      fix k assume k: "k \<in> {1..length (num # w)}"
      then obtain j where j: "k = Suc j" by (cases k) auto
      show "latticeCondition (u @ take k (num # w))"
      proof (cases "j = 0")
        case True
        with b j show ?thesis by simp
      next
        case False
        with k j have "j \<in> {1..length w}" by simp
        with b j show ?thesis by simp
      qed
    qed
  qed
  have "latticeWordToMaybePartition (weightOf u) (num # w) =
      (case latticeWordToMaybePartition (weightOf u) [num] of None \<Rightarrow> None
       | Some q' \<Rightarrow> latticeWordToMaybePartition q' w)"
    using latticeWord_append [of "weightOf u" "[num]" w] by simp
  also have "\<dots> = (if latticeCondition (u @ [num])
      then latticeWordToMaybePartition (weightOf (u @ [num])) w else None)"
    by (cases "latticeCondition (u @ [num])")
      (simp_all only: recognizer_step [OF Cons.prems] if_True if_False option.case)
  also have "\<dots> = (if \<forall>k\<in>{1..length (num # w)}. latticeCondition (u @ take k (num # w))
      then Some (weightOf (u @ num # w)) else None)"
  proof (cases "latticeCondition (u @ [num])")
    case True
    from Cons.IH [OF True] True split show ?thesis by simp
  next
    case False
    with split show ?thesis by simp
  qed
  finally show ?case .
qed

lemma recognizer_spec:
  "latticeWordToMaybePartition [] v = (if latticeWordSpec v then Some (weightOf v) else None)"
proof -
  have e: "latticeCondition []" by (simp add: latticeCondition_def)
  have w: "weightOf [] = []" by (simp add: weightOf_def heightSpec_def)
  have "latticeWordSpec v \<longleftrightarrow> (\<forall>k\<in>{1..length v}. latticeCondition ([] @ take k v))"
  proof -
    have "{0..length v} = insert 0 {1..length v}" by auto
    with e show ?thesis by (simp add: latticeWordSpec_def)
  qed
  with recognizer_from [OF e, of v] w show ?thesis by simp
qed

lemma vertexHeight_spec: "vertexHeight v = heightSpec v"
proof -
  have mem: "foldl (\<lambda>mx x. max mx x) a xs \<in> insert a (set xs)" for a and xs :: "int list"
    by (induction xs arbitrary: a) (auto simp: max_def)
  have "Max (insert 0 (set v)) = foldl (\<lambda>mx x. max mx x) 0 v"
  proof (rule Max_eqI)
    show "finite (insert 0 (set v))" by simp
    show "foldl (\<lambda>mx x. max mx x) 0 v \<in> insert 0 (set v)" by (rule mem)
    fix y assume "y \<in> insert 0 (set v)"
    then show "y \<le> foldl (\<lambda>mx x. max mx x) 0 v"
      using foldl_max_ge [of 0 v] foldl_max_mem [of y v 0] by auto
  qed
  then show ?thesis by (simp add: vertexHeight_def heightSpec_def)
qed

lemma isPartition_bump:
  assumes p: "isPartition q" and k: "Suc k < length q" and gt: "q ! k > q ! Suc k"
  shows "isPartition (q[Suc k := q ! Suc k + 1])"
proof -
  from p have s: "sorted_wrt (\<lambda>a b. a \<ge> b) q" and pos: "\<forall>x\<in>set q. 1 \<le> x"
    by (simp_all add: isPartition_iff)
  from s have nth: "q ! j \<le> q ! i" if "i < j" "j < length q" for i j
    using that by (simp add: sorted_wrt_iff_nth_less)
  let ?q = "q[Suc k := q ! Suc k + 1]"
  have "?q ! j \<le> ?q ! i" if ij: "i < j" and j: "j < length ?q" for i j
  proof -
    from j have jl: "j < length q" by simp
    consider (a) "j = Suc k" | (b) "i = Suc k" | (c) "j \<noteq> Suc k" "i \<noteq> Suc k" by blast
    then show ?thesis
    proof cases
      case a
      with ij have "i \<le> k" by simp
      then have "q ! k \<le> q ! i" using nth [of i k] k by (cases "i = k") simp_all
      with a ij jl gt show ?thesis by simp
    next
      case b
      with nth [OF ij jl] ij jl show ?thesis by simp
    next
      case c
      with nth [OF ij jl] jl ij show ?thesis by simp
    qed
  qed
  then have "sorted_wrt (\<lambda>a b. a \<ge> b) ?q" by (simp add: sorted_wrt_iff_nth_less)
  moreover have "\<forall>x\<in>set ?q. 1 \<le> x"
  proof
    fix x assume "x \<in> set ?q"
    then have "x = q ! Suc k + 1 \<or> x \<in> set q"
      using set_update_subset_insert [of q "Suc k" "q ! Suc k + 1"] by auto
    moreover from pos k have "1 \<le> q ! Suc k" by simp
    ultimately show "1 \<le> x" using pos by auto
  qed
  ultimately show ?thesis by (simp add: isPartition_iff)
qed

lemma recognizer_keeps_partition:
  "isPartition q \<Longrightarrow> latticeWordToMaybePartition q w = Some p \<Longrightarrow> isPartition p"
proof (induction w arbitrary: q)
  case Nil
  then show ?case by simp
next
  case (Cons num w)
  consider (new) "num - 1 = int (length q)"
    | (one) "num - 1 \<noteq> int (length q)" "num = 1"
    | (mid) "num - 1 \<noteq> int (length q)" "num \<noteq> 1" "\<not> num - 1 > int (length q)"
        "js_gt (js_get q (num - 2)) (js_get q (num - 1))"
    | (fail) "num - 1 \<noteq> int (length q)" "num \<noteq> 1"
        "num - 1 > int (length q) \<or> \<not> js_gt (js_get q (num - 2)) (js_get q (num - 1))"
    by blast
  then show ?case
  proof cases
    case new
    from Cons.prems(1) have "isPartition (q @ [1])"
      by (auto simp: isPartition_iff sorted_wrt_append)
    moreover from new Cons.prems(2) have "latticeWordToMaybePartition (q @ [1]) w = Some p" by simp
    ultimately show ?thesis by (rule Cons.IH)
  next
    case one
    then obtain a r where q: "q = a # r" by (cases q) auto
    with Cons.prems(1) have "isPartition (q[0 := q ! 0 + 1])"
      by (auto simp: isPartition_iff)
    moreover from one Cons.prems(2)
    have "latticeWordToMaybePartition (q[0 := q ! 0 + 1]) w = Some p" by simp
    ultimately show ?thesis by (rule Cons.IH)
  next
    case mid
    from mid(4) have r: "0 \<le> num - 2" "num - 1 < int (length q)"
      and gt: "q ! nat (num - 2) > q ! nat (num - 1)"
      by (auto simp: js_gt_def js_get_def split: if_splits option.splits)
    define k where "k = nat (num - 2)"
    with r have sk: "nat (num - 1) = Suc k" by linarith
    from r sk have "Suc k < length q" by linarith
    moreover from gt sk k_def have "q ! k > q ! Suc k" by simp
    ultimately have "isPartition (q[Suc k := q ! Suc k + 1])"
      by (rule isPartition_bump [OF Cons.prems(1)])
    moreover from mid Cons.prems(2) sk
    have "latticeWordToMaybePartition (q[Suc k := q ! Suc k + 1]) w = Some p" by simp
    ultimately show ?thesis by (rule Cons.IH)
  next
    case fail
    with Cons.prems(2) show ?thesis by (auto split: if_splits)
  qed
qed

text \<open>
  C7. The recognizer has two outcomes and no failure: started from a partition it
  returns \<open>null\<close> or a partition, and started from the empty partition it returns the
  weight of the word when every prefix of the word has partition weight, and \<open>null\<close>
  otherwise. Hence \<open>hwToPartition\<close> fails its assertion exactly when its input is not a
  lattice word, and returns the weight of the word otherwise. \<open>visitGLnCrystal\<close> fails an
  assertion exactly when \<open>start\<close> is not a lattice word or a letter of \<open>start\<close> exceeds \<open>n\<close>
  (or \<open>n\<close> is negative); when neither is the case and \<open>n \<ge> 1\<close>, it returns.
\<close>

theorem recognizer_outcomes_and_assertions:
  "(isPartition sofar \<longrightarrow>
      latticeWordToMaybePartition sofar word = None \<or>
      (\<exists>p. latticeWordToMaybePartition sofar word = Some p \<and> isPartition p))
   \<and> latticeWordToMaybePartition [] v = (if latticeWordSpec v then Some (weightOf v) else None)
   \<and> (isLatticeWord v \<longleftrightarrow> latticeWordSpec v)
   \<and> hwToPartition v = (if latticeWordSpec v then Inr (weightOf v) else Inl AssertionFailed)
   \<and> (visitGLnCrystal n start visit a = Some (Inl AssertionFailed) \<longleftrightarrow>
        \<not> latticeWordSpec start \<or> n < heightSpec start)
   \<and> (latticeWordSpec start \<and> heightSpec start \<le> n \<and> 1 \<le> n \<longrightarrow>
        (\<exists>a'. visitGLnCrystal n start visit a = Some (Inr a')))"
proof -
  have c1: "latticeWordToMaybePartition sofar word = None \<or>
      (\<exists>p. latticeWordToMaybePartition sofar word = Some p \<and> isPartition p)"
    if "isPartition sofar"
    using recognizer_keeps_partition [OF that, of word]
    by (cases "latticeWordToMaybePartition sofar word") auto
  have lw: "isLatticeWord w \<longleftrightarrow> latticeWordSpec w" for w
    by (simp add: isLatticeWord_def recognizer_spec)
  have c4: "hwToPartition v = (if latticeWordSpec v then Inr (weightOf v) else Inl AssertionFailed)"
    by (simp add: hwToPartition_def recognizer_spec)
  have c5: "visitGLnCrystal n start visit a = Some (Inl AssertionFailed) \<longleftrightarrow>
        \<not> latticeWordSpec start \<or> n < heightSpec start"
    by (auto simp: visitGLnCrystal_def lw vertexHeight_spec)
  have c6: "\<exists>a'. visitGLnCrystal n start visit a = Some (Inr a')"
    if "latticeWordSpec start \<and> heightSpec start \<le> n \<and> 1 \<le> n"
  proof -
    from that have "isLatticeWord start" "vertexHeight start \<le> n" "1 \<le> n"
      by (simp_all add: lw vertexHeight_spec)
    from expandInGL_correct [OF this] obtain crystal where
      "expandInGL n start = Some (Inr crystal)" by blast
    then show ?thesis by (simp add: visitGLnCrystal_replay)
  qed
  from c1 recognizer_spec [of v] lw [of v] c4 c5 c6 show ?thesis by blast
qed

theorem recognizer_outcomes_and_assertions_witness:
  "isPartition [2, 1] \<and> latticeWordToMaybePartition [2, 1] [1, 3] = Some [3, 1, 1]
   \<and> isPartition [3, 1, 1]
   \<and> latticeWordToMaybePartition [2, 1] [2, 2] = None
   \<and> \<not> latticeWordSpec [1, 2, 2] \<and> hwToPartition [1, 2, 2] = Inl AssertionFailed
   \<and> latticeWordSpec [1, 1, 2, 2, 1] \<and> weightOf [1, 1, 2, 2, 1] = [3, 2]
   \<and> hwToPartition [1, 1, 2, 2, 1] = Inr [3, 2]
   \<and> latticeWordSpec [1, 2, 3] \<and> 2 < heightSpec [1, 2, 3]
   \<and> expandInGL 2 [1, 2, 3] = Some (Inl AssertionFailed)
   \<and> expandInGL 3 [1, 2, 3] = Some (Inr [[1, 2, 3]])"
proof -
  have h: "isPartition [2, 1]" by code_simp
  have e1: "latticeWordToMaybePartition [2, 1] [1, 3] = Some [3, 1, 1]" by code_simp
  have e2: "latticeWordToMaybePartition [2, 1] [2, 2] = None" by code_simp
  have e3: "latticeWordToMaybePartition [] [1, 2, 2] = None" by code_simp
  have e4: "latticeWordToMaybePartition [] [1, 1, 2, 2, 1] = Some [3, 2]" by code_simp
  have e5: "latticeWordToMaybePartition [] [1, 2, 3] = Some [1, 1, 1]" by code_simp
  have e6: "expandInGL 2 [1, 2, 3] = Some (Inl AssertionFailed)" by code_simp
  have e7: "expandInGL 3 [1, 2, 3] = Some (Inr [[1, 2, 3]])" by code_simp
  note t1 = recognizer_outcomes_and_assertions
    [of "[2, 1]" "[1, 3]" "[1, 2, 2]" 2 "[1, 2, 3]" "\<lambda>v crystal. crystal @ [v]" "[]"]
  note t2 = recognizer_outcomes_and_assertions
    [of "[2, 1]" "[2, 2]" "[1, 1, 2, 2, 1]" 3 "[1, 2, 3]" "\<lambda>v crystal. crystal @ [v]" "[]"]
  from t1 h e1 have a: "isPartition [3, 1, 1]" by simp
  from t1 e3 have b: "\<not> latticeWordSpec [1, 2, 2]" "hwToPartition [1, 2, 2] = Inl AssertionFailed"
    by (simp_all split: if_splits)
  from t2 e4 have c: "latticeWordSpec [1, 1, 2, 2, 1]" "weightOf [1, 1, 2, 2, 1] = [3, 2]"
    "hwToPartition [1, 1, 2, 2, 1] = Inr [3, 2]"
    by (simp_all split: if_splits)
  from recognizer_outcomes_and_assertions
    [of "[]" "[]" "[1, 2, 3]" 2 "[1, 2, 3]" "\<lambda>v crystal. crystal @ [v]" "[]"] e5
  have d: "latticeWordSpec [1, 2, 3]" by (simp split: if_splits)
  from t1 d e6 have f: "2 < heightSpec [1, 2, 3]" by (simp add: expandInGL_def)
  from h e1 e2 a b c d f e6 e7 show ?thesis by simp
qed

section \<open>Normal form of linear combinations\<close>

lemma compareLists_lex: "compareLists a b = (if a < b then -1 else if b < a then 1 else 0)"
  by (induction a b rule: compareLists.induct) auto

lemma compareLists_eq_0: "compareLists a b = 0 \<longleftrightarrow> a = b"
  by (auto simp: compareLists_lex)

lemma compareLists_ge_0: "0 \<le> compareLists a b \<longleftrightarrow> b \<le> a"
  by (auto simp: compareLists_lex)

lemma cmp_le_0: "- compareLists (fst x) (fst y) \<le> 0 \<longleftrightarrow> fst y \<le> fst x"
  by (auto simp: compareLists_lex)

lemma set_insort_cmp: "set (insort_cmp cmp x ys) = insert x (set ys)"
  by (induction ys) auto

lemma desc_insort:
  "desc ys \<Longrightarrow> desc (insort_cmp (\<lambda>e1 e2. - compareLists (fst e1) (fst e2)) x ys)"
proof (induction ys)
  case Nil
  then show ?case by (simp add: desc_def)
next
  case (Cons y ys)
  show ?case
  proof (cases "fst y \<le> fst x")
    case True
    with Cons.prems show ?thesis by (auto simp: desc_def compareLists_ge_0)
  next
    case False
    then have "fst x \<le> fst y" by simp
    with Cons False show ?thesis by (auto simp: desc_def compareLists_ge_0 set_insort_cmp)
  qed
qed

lemma desc_sort: "desc (js_sort (\<lambda>e1 e2. - compareLists (fst e1) (fst e2)) lin)"
proof (induction lin)
  case Nil
  show ?case by (simp add: js_sort_def desc_def)
next
  case (Cons x lin)
  from desc_insort [OF Cons.IH, of x] show ?case by (simp add: js_sort_def)
qed

lemma sort_desc_id: "desc lin \<Longrightarrow> js_sort (\<lambda>e1 e2. - compareLists (fst e1) (fst e2)) lin = lin"
proof (induction lin)
  case Nil
  then show ?case by (simp add: js_sort_def)
next
  case (Cons x xs)
  then have "js_sort (\<lambda>e1 e2. - compareLists (fst e1) (fst e2)) xs = xs"
    by (simp add: desc_def)
  moreover have "insort_cmp (\<lambda>e1 e2. - compareLists (fst e1) (fst e2)) x xs = x # xs"
    using Cons.prems by (cases xs) (simp_all add: desc_def compareLists_ge_0)
  ultimately show ?case by (simp add: js_sort_def)
qed

lemma strict_desc_desc: "strict_desc lin \<Longrightarrow> desc lin"
  unfolding strict_desc_def desc_def by (auto intro: sorted_wrt_mono_rel [rotated])

lemma normalised_strict: "normalised lin \<longleftrightarrow> strict_desc lin"
proof -
  have "(sorted_wrt (\<lambda>e1 e2. compareLists (fst e1) (fst e2) \<ge> 0) lin \<and> distinct (map fst lin))
      = sorted_wrt (\<lambda>e1 e2. fst e2 < fst e1) lin"
  proof (induction lin)
    case Nil
    show ?case by simp
  next
    case (Cons e lin)
    have "((\<forall>x\<in>set lin. fst x \<le> fst e) \<and> fst e \<notin> fst ` set lin) = (\<forall>x\<in>set lin. fst x < fst e)"
    proof (intro iffI conjI ballI)
      fix x assume a: "(\<forall>x\<in>set lin. fst x \<le> fst e) \<and> fst e \<notin> fst ` set lin" and x: "x \<in> set lin"
      then have "fst x \<le> fst e" by blast
      moreover from a x have "fst x \<noteq> fst e" by (metis imageI)
      ultimately show "fst x < fst e" by simp
    next
      fix x assume "\<forall>x\<in>set lin. fst x < fst e" and "x \<in> set lin"
      then show "fst x \<le> fst e" by (simp add: order_less_imp_le)
    next
      assume "\<forall>x\<in>set lin. fst x < fst e"
      then show "fst e \<notin> fst ` set lin" by auto
    qed
    with Cons show ?case unfolding list.map distinct.simps sorted_wrt.simps set_map
      by (simp only: compareLists_ge_0) blast
  qed
  then show ?thesis by (auto simp: normalised_def strict_desc_def)
qed

text \<open>A strictly descending list passes through the loop unchanged.\<close>

lemma loop_strict_id:
  "strict_desc (result @ lin) \<Longrightarrow> algebraNormalise_loop lin result = result @ lin"
proof (induction lin arbitrary: result)
  case Nil
  then show ?case by simp
next
  case (Cons e lin)
  obtain part mlt where e: "e = (part, mlt)" by (cases e)
  from Cons.prems e have nz: "mlt \<noteq> 0" by (simp add: strict_desc_def)
  have ne: "result = [] \<or> compareLists (fst (last result)) part \<noteq> 0"
  proof (cases "result = []")
    case True
    then show ?thesis by simp
  next
    case False
    then have "last result \<in> set result" by simp
    with Cons.prems e have "part < fst (last result)"
      by (auto simp: strict_desc_def sorted_wrt_append)
    then show ?thesis by (auto simp: compareLists_eq_0)
  qed
  from Cons.prems have "strict_desc ((result @ [e]) @ lin)" by simp
  from Cons.IH [OF this] nz ne e show ?case by auto
qed

text \<open>The loop keeps its result strictly descending and free of zero multiplicities.\<close>

lemma strict_desc_snoc:
  "strict_desc (xs @ [x]) \<longleftrightarrow> strict_desc xs \<and> snd x \<noteq> 0 \<and> (\<forall>y\<in>set xs. fst x < fst y)"
  by (auto simp: strict_desc_def sorted_wrt_append)

lemma strict_desc_last_least:
  assumes "strict_desc xs" and "y \<in> set xs"
  shows "fst (last xs) \<le> fst y"
proof -
  from assms(2) have "xs \<noteq> []" by auto
  then obtain ys z where xs: "xs = ys @ [z]" by (cases xs rule: rev_cases) auto
  with assms show ?thesis by (auto simp: strict_desc_snoc order_less_imp_le)
qed

lemma loop_strict:
  "desc lin \<Longrightarrow> strict_desc result \<Longrightarrow>
   (\<forall>e\<in>set lin. result \<noteq> [] \<longrightarrow> fst e \<le> fst (last result)) \<Longrightarrow>
   strict_desc (algebraNormalise_loop lin result)"
proof (induction lin arbitrary: result)
  case Nil
  then show ?case by simp
next
  case (Cons e lin)
  obtain part mlt where e: "e = (part, mlt)" by (cases e)
  from Cons.prems(1) have d: "desc lin" and below: "\<forall>x\<in>set lin. fst x \<le> part"
    using e by (simp_all add: desc_def)
  show ?case
  proof (cases "mlt = 0")
    case True
    from Cons.prems(3) have "\<forall>e\<in>set lin. result \<noteq> [] \<longrightarrow> fst e \<le> fst (last result)" by simp
    from Cons.IH [OF d Cons.prems(2) this] True e show ?thesis by simp
  next
    case nz: False
    show ?thesis
    proof (cases "result = [] \<or> compareLists (fst (last result)) part \<noteq> 0")
      case True
      have "strict_desc (result @ [(part, mlt)])"
      proof (cases "result = []")
        case True
        with nz show ?thesis by (simp add: strict_desc_def)
      next
        case False
        with True have neq: "fst (last result) \<noteq> part" by (simp add: compareLists_eq_0)
        from Cons.prems(3) False e have "part \<le> fst (last result)" by simp
        with neq have lt: "part < fst (last result)" by simp
        have "part < fst y" if "y \<in> set result" for y
          using strict_desc_last_least [OF Cons.prems(2) that] lt by simp
        with Cons.prems(2) nz show ?thesis by (simp add: strict_desc_snoc)
      qed
      moreover from below
      have "\<forall>x\<in>set lin. result @ [(part, mlt)] \<noteq> [] \<longrightarrow> fst x \<le> fst (last (result @ [(part, mlt)]))"
        by simp
      ultimately have "strict_desc (algebraNormalise_loop lin (result @ [(part, mlt)]))"
        by (rule Cons.IH [OF d])
      with True nz e show ?thesis by auto
    next
      case False
      then have ne: "result \<noteq> []" and eq: "fst (last result) = part"
        by (simp_all add: compareLists_eq_0)
      from ne obtain ys z where r: "result = ys @ [z]" by (cases result rule: rev_cases) auto
      with eq have z: "fst z = part" by simp
      from Cons.prems(2) r have sy: "strict_desc ys" and zy: "\<forall>y\<in>set ys. fst z < fst y"
        by (simp_all add: strict_desc_snoc)
      show ?thesis
      proof (cases "snd (last result) + mlt = 0")
        case True
        have "\<forall>x\<in>set lin. ys \<noteq> [] \<longrightarrow> fst x \<le> fst (last ys)"
        proof (intro ballI impI)
          fix x assume x: "x \<in> set lin" and "ys \<noteq> []"
          then have "last ys \<in> set ys" by simp
          with zy z have "part < fst (last ys)" by auto
          with below x show "fst x \<le> fst (last ys)" by force
        qed
        from Cons.IH [OF d sy this] True False nz e r show ?thesis by (simp add: Let_def)
      next
        case nz': False
        from sy zy nz' r have "strict_desc (ys @ [(fst z, snd z + mlt)])"
          by (simp add: strict_desc_snoc)
        moreover from below z
        have "\<forall>x\<in>set lin. ys @ [(fst z, snd z + mlt)] \<noteq> [] \<longrightarrow>
                fst x \<le> fst (last (ys @ [(fst z, snd z + mlt)]))"
          by simp
        ultimately have "strict_desc (algebraNormalise_loop lin (ys @ [(fst z, snd z + mlt)]))"
          by (rule Cons.IH [OF d])
        with nz' False nz e r show ?thesis by (simp add: Let_def)
      qed
    qed
  qed
qed

lemma algebraNormalise_strict: "strict_desc (algebraNormalise lin)"
  unfolding algebraNormalise_def
  by (rule loop_strict [OF desc_sort]) (simp_all add: strict_desc_def)

lemma algebraNormalise_id: "strict_desc lin \<Longrightarrow> algebraNormalise lin = lin"
  unfolding algebraNormalise_def
  using loop_strict_id [of "[]" lin] by (simp add: sort_desc_id strict_desc_desc)

text \<open>
  The loop adds up the multiplicities of each partition, whatever the order of the
  entries, and a list in canonical form is determined by its coefficients: the result
  of \<open>algebraNormalise\<close> does not depend on the order in which the sort leaves entries
  with equal partitions.
\<close>

lemma coeff_Nil [simp]: "coeff [] k = 0"
  by (simp add: coeff_def)

lemma coeff_append: "coeff (xs @ ys) k = coeff xs k + coeff ys k"
  by (simp add: coeff_def)

lemma coeff_Cons: "coeff (e # xs) k = (if fst e = k then snd e else 0) + coeff xs k"
  by (simp add: coeff_def)

lemma coeff_butlast:
  "result \<noteq> [] \<Longrightarrow>
   coeff (butlast result) k = coeff result k - (if fst (last result) = k then snd (last result) else 0)"
proof -
  assume "result \<noteq> []"
  then obtain ys z where "result = ys @ [z]" by (cases result rule: rev_cases) auto
  then show ?thesis by (simp add: coeff_append coeff_Cons coeff_def)
qed

lemma coeff_mset: "mset xs = mset ys \<Longrightarrow> coeff xs k = coeff ys k"
proof -
  assume "mset xs = mset ys"
  then have "mset (map snd (filter (\<lambda>e. fst e = k) xs)) = mset (map snd (filter (\<lambda>e. fst e = k) ys))"
    by (metis mset_filter mset_map)
  then show ?thesis unfolding coeff_def by (metis sum_mset_sum_list)
qed

text \<open>Each step of the loop adds the multiplicity of the entry to the coefficient of its partition.\<close>

lemma loop_coeff:
  "coeff (algebraNormalise_loop lin result) k = coeff result k + coeff lin k"
proof (induction lin arbitrary: result)
  case Nil
  show ?case by (simp add: coeff_def)
next
  case (Cons e lin)
  obtain part mlt where e: "e = (part, mlt)" by (cases e)
  show ?case
  proof (cases "mlt = 0")
    case True
    with Cons.IH [of result] e show ?thesis by (simp add: coeff_Cons)
  next
    case nz: False
    show ?thesis
    proof (cases "length result = 0 \<or> compareLists (fst (last result)) part \<noteq> 0")
      case True
      with Cons.IH [of "result @ [(part, mlt)]"] nz e show ?thesis
        by (auto simp: coeff_Cons coeff_append)
    next
      case False
      then have ne: "result \<noteq> []" and eq: "fst (last result) = part"
        by (simp_all add: compareLists_eq_0)
      show ?thesis
      proof (cases "snd (last result) + mlt = 0")
        case True
        with Cons.IH [of "butlast result"] False nz e coeff_butlast [OF ne, of k] eq
        show ?thesis by (auto simp: coeff_Cons Let_def)
      next
        case nz': False
        with Cons.IH [of "butlast result @ [(fst (last result), snd (last result) + mlt)]"]
          False nz e coeff_butlast [OF ne, of k] eq
        show ?thesis by (auto simp: coeff_Cons coeff_append Let_def)
      qed
    qed
  qed
qed

text \<open>A list in canonical form is determined by its coefficients.\<close>

lemma strict_desc_coeff:
  assumes "strict_desc lin"
  shows "coeff lin k = (if k \<in> fst ` set lin then snd (the (find (\<lambda>e. fst e = k) lin)) else 0)"
  using assms
proof (induction lin)
  case Nil
  show ?case by (simp add: coeff_def)
next
  case (Cons e lin)
  from Cons.prems have s: "strict_desc lin" and lt: "\<forall>x\<in>set lin. fst x < fst e"
    by (simp_all add: strict_desc_def)
  show ?case
  proof (cases "fst e = k")
    case True
    with lt have "k \<notin> fst ` set lin" by auto
    with Cons.IH [OF s] True show ?thesis by (simp add: coeff_Cons)
  next
    case False
    with Cons.IH [OF s] show ?thesis by (simp add: coeff_Cons)
  qed
qed

lemma strict_desc_mem_coeff:
  assumes "strict_desc lin"
  shows "(k, m) \<in> set lin \<longleftrightarrow> coeff lin k = m \<and> m \<noteq> 0"
  using assms
proof (induction lin arbitrary: m)
  case Nil
  show ?case by (simp add: coeff_def)
next
  case (Cons e lin)
  from Cons.prems have s: "strict_desc lin" and lt: "\<forall>x\<in>set lin. fst x < fst e"
    and nz: "snd e \<noteq> 0"
    by (simp_all add: strict_desc_def)
  show ?case
  proof (cases "fst e = k")
    case True
    with lt have notin: "\<forall>m'. (k, m') \<notin> set lin" by force
    have "coeff lin k = 0"
    proof (rule ccontr)
      assume "coeff lin k \<noteq> 0"
      with Cons.IH [OF s, of "coeff lin k"] have "(k, coeff lin k) \<in> set lin" by simp
      with notin show False by blast
    qed
    with True nz notin show ?thesis by (cases e) (auto simp: coeff_Cons)
  next
    case False
    with Cons.IH [OF s] show ?thesis by (cases e) (auto simp: coeff_Cons)
  qed
qed

lemma strict_desc_unique:
  assumes "strict_desc xs" and "strict_desc ys" and "\<forall>k. coeff xs k = coeff ys k"
  shows "xs = ys"
proof -
  have set_eq: "set xs = set ys"
  proof -
    have "e \<in> set xs \<longleftrightarrow> e \<in> set ys" for e
      using strict_desc_mem_coeff [OF assms(1), of "fst e" "snd e"]
        strict_desc_mem_coeff [OF assms(2), of "fst e" "snd e"] assms(3) by simp
    then show ?thesis by blast
  qed
  have sorted_rev: "sorted (rev (map fst zs)) \<and> distinct (rev (map fst zs))"
    if "strict_desc zs" for zs :: linear
    using that
  proof (induction zs)
    case Nil
    show ?case by simp
  next
    case (Cons e zs)
    from Cons.prems have s: "strict_desc zs" and lt: "\<forall>x\<in>set zs. fst x < fst e"
      by (simp_all add: strict_desc_def)
    from lt have "fst e \<notin> fst ` set zs" by auto
    with Cons.IH [OF s] lt show ?case by (auto simp: sorted_append order_less_imp_le)
  qed
  have "rev (map fst xs) = rev (map fst ys)"
  proof (rule sorted_distinct_set_unique)
    show "sorted (rev (map fst xs))" "distinct (rev (map fst xs))"
      using sorted_rev [OF assms(1)] by simp_all
    show "sorted (rev (map fst ys))" "distinct (rev (map fst ys))"
      using sorted_rev [OF assms(2)] by simp_all
    show "set (rev (map fst xs)) = set (rev (map fst ys))" using set_eq by simp
  qed
  then have keys: "map fst xs = map fst ys" by simp
  have inj: "inj_on fst (set xs)"
  proof (rule inj_onI)
    fix a b assume a: "a \<in> set xs" and b: "b \<in> set xs" and eq: "fst a = fst b"
    from strict_desc_mem_coeff [OF assms(1), of "fst a" "snd a"] a
    have "coeff xs (fst a) = snd a" by simp
    moreover from strict_desc_mem_coeff [OF assms(1), of "fst b" "snd b"] b
    have "coeff xs (fst b) = snd b" by simp
    ultimately show "a = b" using eq by (simp add: prod_eq_iff)
  qed
  from inj set_eq have "inj_on fst (set xs \<union> set ys)" by simp
  from inj_on_map_eq_map [OF this] keys show ?thesis by simp
qed

lemma loop_any_sorted:
  assumes "desc srt" and "mset srt = mset lin"
  shows "algebraNormalise_loop srt [] = algebraNormalise lin"
proof (rule strict_desc_unique)
  show "strict_desc (algebraNormalise_loop srt [])"
    by (rule loop_strict [OF assms(1)]) (simp_all add: strict_desc_def)
  show "strict_desc (algebraNormalise lin)" by (rule algebraNormalise_strict)
  have m: "mset (js_sort (\<lambda>e1 e2. - compareLists (fst e1) (fst e2)) lin) = mset lin"
    unfolding js_sort_def
  proof (induction lin)
    case Nil
    show ?case by simp
  next
    case (Cons x lin)
    have "mset (insort_cmp c x ys) = add_mset x (mset ys)" for c and ys :: linear
      by (induction ys) auto
    with Cons show ?case by simp
  qed
  show "\<forall>k. coeff (algebraNormalise_loop srt []) k = coeff (algebraNormalise lin) k"
    unfolding algebraNormalise_def loop_coeff
    using coeff_mset [OF assms(2)] coeff_mset [OF m] by simp
qed

text \<open>
  C9. \<open>algebraNormalise\<close> is idempotent: its result is in canonical form (sorted
  descending by partition, without zero multiplicities and without duplicate
  partitions), and it returns every list in canonical form unchanged. The result is the
  same for every sorted arrangement of the entries that the sort may produce.
\<close>

theorem algebraNormalise_idempotent:
  "algebraNormalise (algebraNormalise lin) = algebraNormalise lin
   \<and> normalised (algebraNormalise lin)
   \<and> (\<forall>lin'. normalised lin' \<longrightarrow> algebraNormalise lin' = lin')
   \<and> (\<forall>srt. sorted_wrt (\<lambda>e1 e2. - compareLists (fst e1) (fst e2) \<le> 0) srt \<and> mset srt = mset lin
          \<longrightarrow> algebraNormalise_loop srt [] = algebraNormalise lin)"
proof -
  have "algebraNormalise_loop srt [] = algebraNormalise lin"
    if "sorted_wrt (\<lambda>e1 e2. - compareLists (fst e1) (fst e2) \<le> 0) srt" "mset srt = mset lin"
    for srt
  proof -
    from that(1) have "desc srt" by (simp add: desc_def compareLists_ge_0)
    then show ?thesis using that(2) by (rule loop_any_sorted)
  qed
  then show ?thesis
    using algebraNormalise_id algebraNormalise_strict [of lin] by (simp add: normalised_strict)
qed

theorem algebraNormalise_idempotent_witness:
  "algebraNormalise [([], 1), ([], 1), ([2, 1], 1), ([], 1), ([1], 1), ([3], 2), ([3], -2)]
     = [([2, 1], 1), ([1], 1), ([], 3)]
   \<and> normalised [([2, 1], 1), ([1], 1), ([], 3)]
   \<and> algebraNormalise [([2, 1], 1), ([1], 1), ([], 3)] = [([2, 1], 1), ([1], 1), ([], 3)]"
proof -
  have a: "algebraNormalise [([], 1), ([], 1), ([2, 1], 1), ([], 1), ([1], 1), ([3], 2), ([3], -2)]
     = [([2, 1], 1), ([1], 1), ([], 3)]" by code_simp
  from algebraNormalise_idempotent [of "[([], 1), ([], 1), ([2, 1], 1), ([], 1), ([1], 1), ([3], 2), ([3], -2)]"] a
  show ?thesis by auto
qed

section \<open>Concrete cases\<close>

text \<open>The divisor in \<open>dimensionInGL\<close> is at least \<open>1\<close>: no quotient divides by zero.\<close>

lemma hookLength_pos: "j \<le> part ! i \<Longrightarrow> 1 \<le> hookLength part i (j - 1)"
  by (simp add: hookLength_def)

text \<open>
  C6. The concrete cases: \<open>expandInGL(3, [1])\<close> returns the vertices \<open>[1]\<close>, \<open>[2]\<close>, \<open>[3]\<close>;
  \<open>expandInGL(3, [1,1])\<close> returns each of the six vertices \<open>[1,1]\<close>, \<open>[2,1]\<close>, \<open>[2,2]\<close>,
  \<open>[3,1]\<close>, \<open>[3,2]\<close>, \<open>[3,3]\<close> once; \<open>dimensionInGL(3, [2,1])\<close> is \<open>8\<close>; and
  \<open>tensorPartitions(2, [1], [1])\<close> returns the multiset of \<open>[2]\<close> and \<open>[1,1]\<close>. The lists are
  given in the order of the traversal. In the dimension every quotient (\<open>3/3\<close>, \<open>4/1\<close>,
  \<open>2/1\<close>) and every product is a small integer, which a double holds exactly.
\<close>

theorem concrete_cases:
  "expandInGL 3 [1] = Some (Inr [[1], [2], [3]])
   \<and> expandInGL 3 [1, 1] = Some (Inr [[1, 1], [2, 1], [2, 2], [3, 2], [3, 3], [3, 1]])
   \<and> map_option (map_sum id set) (expandInGL 3 [1]) = Some (Inr {[1], [2], [3]})
   \<and> map_option (map_sum id mset) (expandInGL 3 [1, 1])
         = Some (Inr {#[1, 1], [2, 1], [2, 2], [3, 1], [3, 2], [3, 3]#})
   \<and> dimensionInGL 3 [2, 1] = Inr 8
   \<and> tensorPartitions 2 [1] [1] = Some (Inr [[2], [1, 1]])
   \<and> map_option (map_sum id mset) (tensorPartitions 2 [1] [1]) = Some (Inr {#[2], [1, 1]#})"
proof -
  have a: "expandInGL 3 [1] = Some (Inr [[1], [2], [3]])" by code_simp
  have b: "expandInGL 3 [1, 1] = Some (Inr [[1, 1], [2, 1], [2, 2], [3, 2], [3, 3], [3, 1]])"
    by code_simp
  have c: "dimensionInGL 3 [2, 1] = Inr 8" by code_simp
  have d: "tensorPartitions 2 [1] [1] = Some (Inr [[2], [1, 1]])" by code_simp
  show ?thesis unfolding a b c d by (simp add: add_mset_commute)
qed

section \<open>Termination of the tensor product\<close>

text \<open>
  For partitions with at most \<open>n\<close> rows the word of the traversed partition passes both
  assertions of the traversal, and \<open>tensorPartitions\<close> returns a list.
\<close>

lemma foldl_max_le:
  "(\<forall>x\<in>set xs. x \<le> n) \<Longrightarrow> a \<le> n \<Longrightarrow> foldl (\<lambda>mx x. max mx x) a (xs :: int list) \<le> n"
  by (induction xs arbitrary: a) simp_all

lemma partitionToHw_rows_letters:
  "x \<in> set (partitionToHw_rows i p v) \<Longrightarrow> x \<in> set v \<or> (i + 1 \<le> x \<and> x \<le> i + int (length p))"
proof (induction p arbitrary: i v)
  case Nil
  then show ?case by simp
next
  case (Cons r p)
  from Cons.IH [of "i + 1" "v @ replicate (nat r) (i + 1)"] Cons.prems
  show ?case by (auto split: if_splits)
qed

lemma partitionToHw_traversable:
  assumes "isPartition p" and "int (length p) \<le> n"
  shows "\<exists>hw. partitionToHw p = Inr hw \<and> isLatticeWord hw \<and> vertexHeight hw \<le> n"
proof -
  let ?hw = "partitionToHw_rows 0 p []"
  from assms(1) have s: "sorted_wrt (\<lambda>a b. a \<ge> b) ([] @ p)" and pos: "\<forall>x\<in>set p. 1 \<le> x"
    by (simp_all add: isPartition_iff)
  have "latticeWordToMaybePartition [] ?hw = Some ([] @ p)"
    by (rule latticeWord_rows [OF s pos]) simp_all
  then have lw: "isLatticeWord ?hw" by (simp add: isLatticeWord_def)
  have "\<forall>x\<in>set ?hw. x \<le> n"
    using partitionToHw_rows_letters [of _ 0 p "[]"] assms(2) by fastforce
  moreover from assms(2) have "0 \<le> n" by simp
  ultimately have "vertexHeight ?hw \<le> n" unfolding vertexHeight_def by (rule foldl_max_le)
  with lw assms(1) show ?thesis by (simp add: partitionToHw_def)
qed

lemma tensorTraverse_returns:
  assumes "1 \<le> n" and "isPartition q" and "int (length q) \<le> n"
  shows "\<exists>ps. tensorTraverse n p q = Some (Inr ps)"
proof -
  from partitionToHw_traversable [OF assms(2,3)] obtain hw where
    hw: "partitionToHw q = Inr hw" "isLatticeWord hw" "vertexHeight hw \<le> n" by blast
  from expandInGL_correct [OF hw(2,3) assms(1)] obtain crystal where
    "expandInGL n hw = Some (Inr crystal)" by blast
  with hw(1) show ?thesis by (simp add: tensorTraverse_def visitGLnCrystal_replay)
qed

lemma tensorPartitions_returns:
  assumes "2 \<le> n" and "isPartition p" and "isPartition q"
    and "int (length p) \<le> n" and "int (length q) \<le> n"
  shows "\<exists>ps. tensorPartitions n p q = Some (Inr ps)"
proof -
  from assms(1) have n: "1 \<le> n" by simp
  from assms(2,3) obtain d1 d2 where d: "dimensionInGL n p = Inr d1" "dimensionInGL n q = Inr d2"
    by (auto simp: dimensionInGL_def)
  show ?thesis
  proof (cases "d1 < d2")
    case True
    with assms(1-3) d have "tensorPartitions n p q = tensorTraverse n q p"
      by (simp add: tensorPartitions_def)
    with tensorTraverse_returns [OF n assms(2,4), of q] show ?thesis by simp
  next
    case False
    with assms(1-3) d have "tensorPartitions n p q = tensorTraverse n p q"
      by (simp add: tensorPartitions_def)
    with tensorTraverse_returns [OF n assms(3,5), of p] show ?thesis by simp
  qed
qed

text \<open>
  A partition with more than \<open>n\<close> rows has dimension \<open>0\<close> and is exchanged to the traversed
  side, where the height assertion fails; without the exchange the traversal returns.
\<close>

lemma tensorPartitions_more_rows:
  "isPartition [1, 1, 1] \<and> isPartition [1]
   \<and> dimensionInGL 2 [1, 1, 1] = Inr 0 \<and> dimensionInGL 2 [1] = Inr 2
   \<and> tensorTraverse 2 [1, 1, 1] [1] = Some (Inr [[2, 1, 1]])
   \<and> tensorPartitions 2 [1, 1, 1] [1] = Some (Inl AssertionFailed)"
proof -
  have a: "isPartition [1, 1, 1]" by code_simp
  have b: "isPartition [1]" by code_simp
  have c: "dimensionInGL 2 [1, 1, 1] = Inr 0" by code_simp
  have d: "dimensionInGL 2 [1] = Inr 2" by code_simp
  have e: "tensorTraverse 2 [1, 1, 1] [1] = Some (Inr [[2, 1, 1]])" by code_simp
  have f: "tensorPartitions 2 [1, 1, 1] [1] = Some (Inl AssertionFailed)" by code_simp
  from a b c d e f show ?thesis by blast
qed

end
